theory Spec2Isabelle
  imports Main "HOL-Library.AList" "HOL-Library.Multiset"
begin

section \<open>Diff-blame: the object model\<close>

text \<open>
  The program of \<^verbatim>\<open>main.go\<close> walks the commit graph backwards from the end
  revision and collects the commits that touched the files differing between two
  revisions. The object-store library it calls is not part of the repository; what
  the program uses of it is modelled in this section, from the interface that the
  specification gives and the way the program calls it.
\<close>

text \<open>
  How the process can stop without a result: \<^verbatim>\<open>logger.Fatalf\<close> logs and exits,
  and the Go runtime panics when a nil pointer is dereferenced.
\<close>

datatype error = Fatal | Panic

text \<open>
  The error of \<^verbatim>\<open>Commit.File(path)\<close>: \<^verbatim>\<open>object.ErrFileNotFound\<close> or any other
  error of the store. A lookup that succeeds has no error (\<open>None\<close>, Go's nil).
\<close>

datatype fileErr = ErrFileNotFound | ErrOther

text \<open>
  A commit object (\<^verbatim>\<open>*object.Commit\<close>), reduced to what the program reads: its hash,
  the hashes of its parents in recorded order, the paths of the files of its tree, the
  paths the store fails to read, and the committer timestamp.
\<close>

record commit =
  Hash :: string
  ParentHashes :: "string list"
  Tree :: "string list"
  Unreadable :: "string list"
  When :: int

text \<open>
  Modelled from the spec: \<^verbatim>\<open>exists(path, commit)\<close> of the object store, the library's
  \<^verbatim>\<open>Commit.File(path)\<close>, which is not in the repository. It finds the file, or fails
  with "not found", or fails with another error of the store. The program reads the
  error only.
\<close>

definition File :: "commit \<Rightarrow> string \<Rightarrow> fileErr option" where
  "File c path =
     (if path \<in> set (Unreadable c) then Some ErrOther
      else if path \<in> set (Tree c) then None
      else Some ErrFileNotFound)"

definition NumParents :: "commit \<Rightarrow> nat" where
  "NumParents c = length (ParentHashes c)"

text \<open>
  Modelled from the spec: the object store, missing from the repository, as the list of
  its commit objects; an object is found by its hash, the first of the list if several
  carry it.
\<close>

type_synonym repository = "commit list"

definition CommitObject :: "repository \<Rightarrow> string \<Rightarrow> commit option" where
  "CommitObject r h = find (\<lambda>c. Hash c = h) r"

text \<open>
  Modelled from the spec: \<^verbatim>\<open>parent(commit, index)\<close> of the object store, the library's
  \<^verbatim>\<open>Commit.Parent(i)\<close>: the i-th parent, resolved in the store. It fails when the
  index is out of range or the object is missing; the program never looks at which.
\<close>

definition Parent :: "repository \<Rightarrow> commit \<Rightarrow> nat \<Rightarrow> unit + commit" where
  "Parent r c i =
     (if i < length (ParentHashes c)
      then (case CommitObject r (ParentHashes c ! i) of
              None \<Rightarrow> Inl ()
            | Some p \<Rightarrow> Inr p)
      else Inl ())"

text \<open>
  The parent links of the store, as pairs (child hash, parent hash). A link starts at an
  object that its own hash resolves to and ends at a hash that resolves.
\<close>

definition edges :: "repository \<Rightarrow> (string \<times> string) list" where
  "edges r =
     concat (map (\<lambda>c. map (\<lambda>p. (Hash c, p))
                        (filter (\<lambda>p. CommitObject r p \<noteq> None) (ParentHashes c)))
                 (filter (\<lambda>c. CommitObject r (Hash c) = Some c) r))"

definition reaches :: "repository \<Rightarrow> string \<Rightarrow> string \<Rightarrow> bool" where
  "reaches r a b = (a = b \<or> (a, b) \<in> (set (edges r))\<^sup>+)"

text \<open>A parent hash that does not resolve, somewhere in the history of a commit.\<close>

definition dangling :: "repository \<Rightarrow> string \<Rightarrow> bool" where
  "dangling r a =
     (\<exists>c \<in> set r. CommitObject r (Hash c) = Some c \<and> reaches r a (Hash c) \<and>
        (\<exists>p \<in> set (ParentHashes c). CommitObject r p = None))"

text \<open>
  Modelled from the spec: \<^verbatim>\<open>isAncestor(candidate, reference)\<close> of the object store, the
  library's \<^verbatim>\<open>c.IsAncestor(other)\<close>. It is true when \<open>c\<close> is \<open>other\<close> or is reached
  from \<open>other\<close> by parent links: a commit reached by walking backward from a revision
  is an ancestor of it, and every commit is an ancestor of itself. This is the reading
  of the walker's contract and of the design notes of the specification, and what the
  library documents for the receiver \<open>c\<close>; the glossary names the two ends of the
  links the other way round. The query walks the history of \<open>other\<close> until it finds
  \<open>c\<close>; it fails when \<open>c\<close> is not found and that history cannot be traversed.
\<close>

definition IsAncestor :: "repository \<Rightarrow> commit \<Rightarrow> commit \<Rightarrow> unit + bool" where
  "IsAncestor r c other =
     (if reaches r (Hash other) (Hash c) then Inr True
      else if dangling r (Hash other) then Inl ()
      else Inr False)"

section \<open>The program\<close>

text \<open>The global variables of the program, set once by \<^verbatim>\<open>setup\<close>.\<close>

record globals =
  repo :: repository
  beginCommit :: commit
  endCommit :: commit

record changeList =
  added :: "string list"
  removed :: "string list"
  changed :: "string list"

datatype fileStatus = fileStatusSeeking | fileStatusFound | fileStatusRemoved

text \<open>
  A \<^verbatim>\<open>map[string]fileStatus\<close> is an association list; \<^verbatim>\<open>statuses[path] = s\<close> is
  \<^const>\<open>AList.update\<close>, which keeps one entry per key. The set of result commits
  \<^verbatim>\<open>map[string]*object.Commit\<close> is an association list from hash to commit. The
  seen map only ever holds \<^verbatim>\<open>true\<close>; it is the list of the hashes marked, latest
  first.
\<close>

type_synonym statusMap = "(string \<times> fileStatus) list"
type_synonym commitSet = "(string \<times> commit) list"
type_synonym accumulator = "commit \<Rightarrow> commitSet \<Rightarrow> error + (commitSet \<times> bool)"

definition copyMap :: "statusMap \<Rightarrow> statusMap" where
  "copyMap m = fold (\<lambda>(k, v) n. AList.update k v n) m []"

subsection \<open>The path status tracker\<close>

text \<open>
  The loop over \<^verbatim>\<open>statuses\<close> on the single-parent path (lines 219 to 238). It
  returns the updated map and \<^verbatim>\<open>process\<close>. An error of the lookup other than
  "not found" is fatal.
\<close>

fun trackPaths :: "commit \<Rightarrow> statusMap \<Rightarrow> error + (statusMap \<times> bool)" where
  "trackPaths current [] = Inr ([], False)"
| "trackPaths current ((path, status) # rest) =
     (if status = fileStatusRemoved
      then (case trackPaths current rest of
              Inl e \<Rightarrow> Inl e
            | Inr (rest', process) \<Rightarrow> Inr ((path, status) # rest', process))
      else (case File current path of
              Some err \<Rightarrow>
                (if err \<noteq> ErrFileNotFound then Inl Fatal
                 else (case trackPaths current rest of
                         Inl e \<Rightarrow> Inl e
                       | Inr (rest', process) \<Rightarrow>
                           Inr ((path, if status = fileStatusFound then fileStatusRemoved
                                       else status) # rest',
                                process)))
            | None \<Rightarrow>
                (case trackPaths current rest of
                   Inl e \<Rightarrow> Inl e
                 | Inr (rest', process) \<Rightarrow> Inr ((path, fileStatusFound) # rest', True))))"

text \<open>
  The loop over \<^verbatim>\<open>statuses\<close> for a parent of a root or merge commit (lines 267 to
  275); it leaves the map as it is.
\<close>

fun branchProcess :: "commit \<Rightarrow> statusMap \<Rightarrow> bool" where
  "branchProcess p [] = False"
| "branchProcess p ((path, status) # rest) =
     (if status = fileStatusRemoved then branchProcess p rest
      else if File p path = None \<or> status = fileStatusSeeking then True
      else branchProcess p rest)"

subsection \<open>The accumulators\<close>

definition addAlways :: accumulator where
  "addAlways c commits = Inr (AList.update (Hash c) c commits, True)"

definition addIfNotAncestor :: "repository \<Rightarrow> commit \<Rightarrow> accumulator" where
  "addIfNotAncestor r base c commits =
     (case IsAncestor r c base of
        Inl _ \<Rightarrow> Inl Fatal
      | Inr ancestry \<Rightarrow>
          if \<not> ancestry then Inr (AList.update (Hash c) c commits, True)
          else Inr (commits, False))"

subsection \<open>The walk\<close>

text \<open>
  \<^verbatim>\<open>accumulateCommitsForPaths\<close>. \<open>walk\<close> is the \<^verbatim>\<open>for\<close> loop of lines 207 to 253
  followed by the loop over the parents, \<open>branch\<close> is that second loop from index
  \<open>idx\<close> on (lines 261 to 290). \<open>current\<close> is a pointer: \<open>None\<close> is nil, which the
  loop dereferences at once. Both return the seen map and the result set as the call
  leaves them; the status map of a call is its own. For a parent, the source computes
  \<^verbatim>\<open>process\<close> and then asks for the ancestry, which is fatal when it fails, before it
  looks at either; the loop for \<^verbatim>\<open>process\<close> has no effect but its result.
\<close>

function
  walk :: "globals \<Rightarrow> accumulator \<Rightarrow> commit option \<Rightarrow> string list \<Rightarrow> statusMap \<Rightarrow> commitSet
             \<Rightarrow> error + (string list \<times> commitSet)"
and
  branch :: "globals \<Rightarrow> accumulator \<Rightarrow> commit \<Rightarrow> nat \<Rightarrow> string list \<Rightarrow> statusMap \<Rightarrow> commitSet
             \<Rightarrow> error + (string list \<times> commitSet)"
where
  "walk g acc current seen statuses commits =
     (case current of
        None \<Rightarrow> Inl Panic
      | Some c \<Rightarrow>
          if Hash c \<in> set seen then Inr (seen, commits)
          else if NumParents c \<noteq> 1 then branch g acc c 0 (Hash c # seen) statuses commits
          else (case trackPaths c statuses of
                  Inl e \<Rightarrow> Inl e
                | Inr (statuses', process) \<Rightarrow>
                    (case (if process then acc c commits else Inr (commits, True)) of
                       Inl e \<Rightarrow> Inl e
                     | Inr (commits', continue) \<Rightarrow>
                         if \<not> continue then Inr (Hash c # seen, commits')
                         else walk g acc
                                (case Parent (repo g) c 0 of Inl _ \<Rightarrow> None | Inr next \<Rightarrow> Some next)
                                (Hash c # seen) statuses' commits')))"
| "branch g acc current idx seen statuses commits =
     (if idx < NumParents current
      then (case Parent (repo g) current idx of
              Inl _ \<Rightarrow> Inl Fatal
            | Inr p \<Rightarrow>
                (case IsAncestor (repo g) p (beginCommit g) of
                   Inl _ \<Rightarrow> Inl Fatal
                 | Inr ancestor \<Rightarrow>
                     if \<not> branchProcess p statuses
                     then branch g acc current (idx + 1) seen statuses commits
                     else if ancestor
                     then branch g acc current (idx + 1) seen statuses commits
                     else (case walk g acc (Some p) seen (copyMap statuses) commits of
                             Inl e \<Rightarrow> Inl e
                           | Inr (seen', commits') \<Rightarrow>
                               branch g acc current (idx + 1) seen' statuses commits')))
      else Inr (seen, commits))"
  by pat_completeness auto

text \<open>The measure of the recursion: the objects of the store not yet seen.\<close>

definition walk_measure ::
  "(globals \<times> accumulator \<times> commit option \<times> string list \<times> statusMap \<times> commitSet) +
   (globals \<times> accumulator \<times> commit \<times> nat \<times> string list \<times> statusMap \<times> commitSet)
     \<Rightarrow> nat \<times> nat" where
  "walk_measure x =
     (case x of
        Inl (g, acc, cur, seen, sts, cs) \<Rightarrow>
          (card ((Hash ` set (repo g) \<union> (case cur of None \<Rightarrow> {} | Some c \<Rightarrow> {Hash c})) - set seen),
           0)
      | Inr (g, acc, c, idx, seen, sts, cs) \<Rightarrow>
          (card (Hash ` set (repo g) - set seen), Suc (NumParents c - idx)))"

text \<open>
  The entry point takes the seen map as a pointer; nil stands for a fresh map.
\<close>

definition accumulateCommitsForPaths ::
  "globals \<Rightarrow> commit option \<Rightarrow> string list option \<Rightarrow> statusMap \<Rightarrow> accumulator \<Rightarrow> commitSet
     \<Rightarrow> error + (string list \<times> commitSet)" where
  "accumulateCommitsForPaths g current seen statuses acc commits =
     walk g acc current (case seen of None \<Rightarrow> [] | Some s \<Rightarrow> s) statuses commits"

text \<open>
  The commits that a call marks as seen (line 212), in the order in which it marks them.
  The control flow is that of \<open>walk\<close> and \<open>branch\<close>; where they stop or fail, the
  trace ends. Each entry says whether the accumulator was run on the commit.
\<close>

function
  visits :: "globals \<Rightarrow> accumulator \<Rightarrow> commit option \<Rightarrow> string list \<Rightarrow> statusMap \<Rightarrow> commitSet
               \<Rightarrow> (string \<times> bool) list"
and
  branchVisits :: "globals \<Rightarrow> accumulator \<Rightarrow> commit \<Rightarrow> nat \<Rightarrow> string list \<Rightarrow> statusMap \<Rightarrow> commitSet
               \<Rightarrow> (string \<times> bool) list"
where
  "visits g acc current seen statuses commits =
     (case current of
        None \<Rightarrow> []
      | Some c \<Rightarrow>
          if Hash c \<in> set seen then []
          else if NumParents c \<noteq> 1
          then (Hash c, False) # branchVisits g acc c 0 (Hash c # seen) statuses commits
          else (case trackPaths c statuses of
                  Inl e \<Rightarrow> [(Hash c, False)]
                | Inr (statuses', process) \<Rightarrow>
                    (case (if process then acc c commits else Inr (commits, True)) of
                       Inl e \<Rightarrow> [(Hash c, process)]
                     | Inr (commits', continue) \<Rightarrow>
                         if \<not> continue then [(Hash c, process)]
                         else (Hash c, process) #
                              visits g acc
                                (case Parent (repo g) c 0 of Inl _ \<Rightarrow> None | Inr next \<Rightarrow> Some next)
                                (Hash c # seen) statuses' commits')))"
| "branchVisits g acc current idx seen statuses commits =
     (if idx < NumParents current
      then (case Parent (repo g) current idx of
              Inl _ \<Rightarrow> []
            | Inr p \<Rightarrow>
                (case IsAncestor (repo g) p (beginCommit g) of
                   Inl _ \<Rightarrow> []
                 | Inr ancestor \<Rightarrow>
                     if \<not> branchProcess p statuses
                     then branchVisits g acc current (idx + 1) seen statuses commits
                     else if ancestor
                     then branchVisits g acc current (idx + 1) seen statuses commits
                     else visits g acc (Some p) seen (copyMap statuses) commits @
                          (case walk g acc (Some p) seen (copyMap statuses) commits of
                             Inl e \<Rightarrow> []
                           | Inr (seen', commits') \<Rightarrow>
                               branchVisits g acc current (idx + 1) seen' statuses commits')))
      else [])"
  by pat_completeness auto

subsection \<open>The three walks and the result\<close>

text \<open>The loops that fill a fresh status map with one status for every path of a list.\<close>

definition initStatuses :: "string list \<Rightarrow> fileStatus \<Rightarrow> statusMap" where
  "initStatuses paths s = fold (\<lambda>path statuses. AList.update path s statuses) paths []"

definition addedWalk :: "globals \<Rightarrow> changeList \<Rightarrow> commitSet \<Rightarrow> error + (string list \<times> commitSet)" where
  "addedWalk g cl commitsSet =
     accumulateCommitsForPaths g (Some (endCommit g)) None
        (initStatuses (added cl) fileStatusFound) addAlways commitsSet"

definition removedWalk :: "globals \<Rightarrow> changeList \<Rightarrow> commitSet \<Rightarrow> error + (string list \<times> commitSet)" where
  "removedWalk g cl commitsSet =
     accumulateCommitsForPaths g (Some (endCommit g)) None
        (initStatuses (removed cl) fileStatusSeeking)
        (addIfNotAncestor (repo g) (endCommit g)) commitsSet"

definition changedWalk :: "globals \<Rightarrow> changeList \<Rightarrow> commitSet \<Rightarrow> error + (string list \<times> commitSet)" where
  "changedWalk g cl commitsSet =
     accumulateCommitsForPaths g (Some (endCommit g)) None
        (initStatuses (changed cl) fileStatusFound)
        (addIfNotAncestor (repo g) (endCommit g)) commitsSet"

text \<open>\<^verbatim>\<open>commitsSet\<close> of \<^verbatim>\<open>computeDiffCommits\<close> after the three walks.\<close>

definition commitsSet :: "globals \<Rightarrow> changeList \<Rightarrow> error + commitSet" where
  "commitsSet g cl =
     (case addedWalk g cl [] of
        Inl e \<Rightarrow> Inl e
      | Inr (_, commits1) \<Rightarrow>
          (case removedWalk g cl commits1 of
             Inl e \<Rightarrow> Inl e
           | Inr (_, commits2) \<Rightarrow>
               (case changedWalk g cl commits2 of
                  Inl e \<Rightarrow> Inl e
                | Inr (_, commits3) \<Rightarrow> Inr commits3)))"

text \<open>
  What \<^verbatim>\<open>sort.Slice\<close> guarantees of its result for the comparison
  \<^verbatim>\<open>commits[i].Committer.When.Before(commits[j].Committer.When)\<close>: no element is before
  one that precedes it.
\<close>

definition sortedByWhen :: "commit list \<Rightarrow> bool" where
  "sortedByWhen commits = sorted_wrt (\<lambda>a b. \<not> When b < When a) commits"

text \<open>
  \<^verbatim>\<open>computeDiffCommits\<close>. The slice is filled by ranging over the map, in an order the
  language leaves open, and sorted by a sort that is not stable, so the function is a
  relation between the input and what a run may return: the commits of the set, each
  once, sorted by timestamp. A run that stopped returns nothing.
\<close>

definition computeDiffCommits :: "globals \<Rightarrow> changeList \<Rightarrow> error + commit list \<Rightarrow> bool" where
  "computeDiffCommits g cl out =
     (case commitsSet g cl of
        Inl e \<Rightarrow> out = Inl e
      | Inr commits \<Rightarrow>
          (case out of
             Inl _ \<Rightarrow> False
           | Inr sorted_commits \<Rightarrow>
               mset sorted_commits = mset (map snd commits) \<and> sortedByWhen sorted_commits))"

subsection \<open>The change list\<close>

text \<open>\<^verbatim>\<open>strings.Contains\<close>.\<close>

fun Contains :: "string \<Rightarrow> string \<Rightarrow> bool" where
  "Contains [] substr = (substr = [])"
| "Contains (x # s) substr = (take (length substr) (x # s) = substr \<or> Contains s substr)"

text \<open>
  The body of the loop of \<^verbatim>\<open>changedFiles\<close> over the file patches of the diff. A
  patch is the pair of the paths of its source and destination files; a missing file
  is nil. The library gives no patch without both files; the code would call a method
  on nil.
\<close>

fun addPatch :: "changeList \<Rightarrow> string option \<times> string option \<Rightarrow> error + changeList" where
  "addPatch cl (None, None) = Inl Panic"
| "addPatch cl (None, Some dstFile) =
     (if Contains dstFile ''vendor/'' then Inr cl
      else Inr (cl\<lparr>added := added cl @ [dstFile]\<rparr>))"
| "addPatch cl (Some srcFile, None) =
     (if Contains srcFile ''vendor/'' then Inr cl
      else Inr (cl\<lparr>removed := removed cl @ [srcFile]\<rparr>))"
| "addPatch cl (Some srcFile, Some dstFile) =
     (if srcFile \<noteq> dstFile
      then (if Contains srcFile ''vendor/'' then Inr cl
            else Inr (cl\<lparr>added := added cl @ [dstFile], removed := removed cl @ [srcFile]\<rparr>))
      else (if Contains srcFile ''vendor/'' then Inr cl
            else Inr (cl\<lparr>changed := changed cl @ [srcFile]\<rparr>)))"

fun addPatches :: "changeList \<Rightarrow> (string option \<times> string option) list \<Rightarrow> error + changeList" where
  "addPatches cl [] = Inr cl"
| "addPatches cl (patch # patches) =
     (case addPatch cl patch of
        Inl e \<Rightarrow> Inl e
      | Inr cl' \<Rightarrow> addPatches cl' patches)"

text \<open>
  \<^verbatim>\<open>changedFiles\<close>, from the file patches that the library computes for the trees of
  the begin and end commits.
\<close>

definition changedFiles :: "(string option \<times> string option) list \<Rightarrow> error + changeList" where
  "changedFiles filePatches = addPatches \<lparr>added = [], removed = [], changed = []\<rparr> filePatches"

text \<open>
  Modelled from the spec: \<^verbatim>\<open>diffTrees(beginTree, endTree)\<close> of the library, which is
  not in the repository. Of the file patches that it gives for the trees of two
  commits, the model keeps what every tree diff guarantees: a patch has a source file
  or a destination file or both, its source file is a file of the begin tree and its
  destination file is a file of the end tree.
\<close>

definition filePatchesFor :: "commit \<Rightarrow> commit \<Rightarrow> (string option \<times> string option) list \<Rightarrow> bool" where
  "filePatchesFor b e filePatches =
     list_all (\<lambda>patch.
        (fst patch \<noteq> None \<or> snd patch \<noteq> None) \<and>
        (case fst patch of None \<Rightarrow> True | Some srcFile \<Rightarrow> srcFile \<in> set (Tree b)) \<and>
        (case snd patch of None \<Rightarrow> True | Some dstFile \<Rightarrow> dstFile \<in> set (Tree e)))
       filePatches"

section \<open>Notions used in the statements\<close>

text \<open>
  A commit on the history of the end commit: an object of the store, reached from the
  end commit by parent links.
\<close>

definition onHistory :: "globals \<Rightarrow> commit \<Rightarrow> bool" where
  "onHistory g c =
     (CommitObject (repo g) (Hash c) = Some c \<and> reaches (repo g) (Hash (endCommit g)) (Hash c))"

text \<open>The entries of a status map that are not Removed.\<close>

definition liveEntries :: "statusMap \<Rightarrow> statusMap" where
  "liveEntries statuses = filter (\<lambda>x. snd x \<noteq> fileStatusRemoved) statuses"

text \<open>An accumulator that fails on every commit that has not exactly one parent.\<close>

definition rejectOthers :: accumulator where
  "rejectOthers c commits = (if NumParents c = 1 then addAlways c commits else Inl Fatal)"

section \<open>Example histories\<close>

text \<open>
  The linear history A (root), B (adds \<^verbatim>\<open>file.txt\<close>), C (modifies it), D (deletes
  it), with A as the begin and D as the end revision; and the same history in a store
  that lacks the object A.
\<close>

definition commitA :: commit where
  "commitA = \<lparr>Hash = ''A'', ParentHashes = [], Tree = [], Unreadable = [], When = 1\<rparr>"

definition commitB :: commit where
  "commitB = \<lparr>Hash = ''B'', ParentHashes = [''A''], Tree = [''file.txt''], Unreadable = [],
               When = 2\<rparr>"

definition commitC :: commit where
  "commitC = \<lparr>Hash = ''C'', ParentHashes = [''B''], Tree = [''file.txt''], Unreadable = [],
               When = 3\<rparr>"

definition commitD :: commit where
  "commitD = \<lparr>Hash = ''D'', ParentHashes = [''C''], Tree = [], Unreadable = [], When = 4\<rparr>"

definition linearHistory :: globals where
  "linearHistory =
     \<lparr>repo = [commitA, commitB, commitC, commitD], beginCommit = commitA, endCommit = commitD\<rparr>"

definition brokenHistory :: globals where
  "brokenHistory = \<lparr>repo = [commitB, commitC, commitD], beginCommit = commitB, endCommit = commitD\<rparr>"

definition removedFile :: changeList where
  "removedFile = \<lparr>added = [], removed = [''file.txt''], changed = []\<rparr>"

definition noChanges :: changeList where
  "noChanges = \<lparr>added = [], removed = [], changed = []\<rparr>"

text \<open>
  A and B of the linear history under a merge M of B and of Z, an object that the store
  lacks.
\<close>

definition commitM :: commit where
  "commitM = \<lparr>Hash = ''M'', ParentHashes = [''B'', ''Z''], Tree = [''file.txt''], Unreadable = [],
               When = 3\<rparr>"

definition brokenMerge :: globals where
  "brokenMerge = \<lparr>repo = [commitA, commitB, commitM], beginCommit = commitA, endCommit = commitM\<rparr>"

text \<open>
  A diamond: R (root), A, the branches B and C from A, and the merge D of B and C. All
  but R hold \<^verbatim>\<open>f.go\<close>.
\<close>

definition diamondR :: commit where
  "diamondR = \<lparr>Hash = ''R'', ParentHashes = [], Tree = [], Unreadable = [], When = 1\<rparr>"

definition diamondA :: commit where
  "diamondA = \<lparr>Hash = ''A'', ParentHashes = [''R''], Tree = [''f.go''], Unreadable = [], When = 2\<rparr>"

definition diamondB :: commit where
  "diamondB = \<lparr>Hash = ''B'', ParentHashes = [''A''], Tree = [''f.go''], Unreadable = [], When = 3\<rparr>"

definition diamondC :: commit where
  "diamondC = \<lparr>Hash = ''C'', ParentHashes = [''A''], Tree = [''f.go''], Unreadable = [], When = 4\<rparr>"

definition diamondD :: commit where
  "diamondD = \<lparr>Hash = ''D'', ParentHashes = [''B'', ''C''], Tree = [''f.go''], Unreadable = [],
                When = 5\<rparr>"

definition diamondHistory :: globals where
  "diamondHistory =
     \<lparr>repo = [diamondR, diamondA, diamondB, diamondC, diamondD],
      beginCommit = diamondR, endCommit = diamondD\<rparr>"

definition addedFile :: changeList where
  "addedFile = \<lparr>added = [''f.go''], removed = [], changed = []\<rparr>"

text \<open>
  Two revisions side by side: O (root), R (adds \<^verbatim>\<open>f.go\<close> and \<^verbatim>\<open>g.go\<close>), and from R
  both X (the begin revision, which deletes \<^verbatim>\<open>f.go\<close>) and Y (the end revision, which
  keeps both files). Between X and Y, \<^verbatim>\<open>f.go\<close> is added and \<^verbatim>\<open>g.go\<close> is changed.
\<close>

definition forkO :: commit where
  "forkO = \<lparr>Hash = ''O'', ParentHashes = [], Tree = [], Unreadable = [], When = 1\<rparr>"

definition forkR :: commit where
  "forkR = \<lparr>Hash = ''R'', ParentHashes = [''O''], Tree = [''f.go'', ''g.go''], Unreadable = [],
             When = 2\<rparr>"

definition forkX :: commit where
  "forkX = \<lparr>Hash = ''X'', ParentHashes = [''R''], Tree = [''g.go''], Unreadable = [], When = 3\<rparr>"

definition forkY :: commit where
  "forkY = \<lparr>Hash = ''Y'', ParentHashes = [''R''], Tree = [''f.go'', ''g.go''], Unreadable = [],
             When = 4\<rparr>"

definition forkedHistory :: globals where
  "forkedHistory = \<lparr>repo = [forkO, forkR, forkX, forkY], beginCommit = forkX, endCommit = forkY\<rparr>"

definition forkedChanges :: changeList where
  "forkedChanges = \<lparr>added = [''f.go''], removed = [], changed = [''g.go'']\<rparr>"

text \<open>A linear history whose last two commits carry the same committer timestamp.\<close>

definition tiedA :: commit where
  "tiedA = \<lparr>Hash = ''A'', ParentHashes = [], Tree = [], Unreadable = [], When = 1\<rparr>"

definition tiedB :: commit where
  "tiedB = \<lparr>Hash = ''B'', ParentHashes = [''A''], Tree = [''f.go''], Unreadable = [], When = 5\<rparr>"

definition tiedC :: commit where
  "tiedC = \<lparr>Hash = ''C'', ParentHashes = [''B''], Tree = [''f.go''], Unreadable = [], When = 5\<rparr>"

definition tiedHistory :: globals where
  "tiedHistory = \<lparr>repo = [tiedA, tiedB, tiedC], beginCommit = tiedA, endCommit = tiedC\<rparr>"

section \<open>Termination of the walk\<close>

text \<open>
  A call marks a commit it has not seen before it goes on, and every commit it goes on
  to is an object of the store, so the unseen objects of the store get fewer. The call
  for the next parent of a merge starts from the seen map the previous one left, which
  holds at least what it held before.
\<close>

lemma CommitObject_Some: "CommitObject r h = Some c \<Longrightarrow> c \<in> set r \<and> Hash c = h"
  unfolding CommitObject_def by (auto simp: find_Some_iff)

lemma Parent_Inr: "Parent r c i = Inr p \<Longrightarrow> p \<in> set r \<and> i < length (ParentHashes c) \<and> Hash p = ParentHashes c ! i"
  unfolding Parent_def by (auto split: if_splits option.splits dest: CommitObject_Some)

lemma seen_grows_dom:
  "walk_branch_dom (Inl (g, acc, cur, seen, sts, cs)) \<Longrightarrow>
     (\<forall>seen' cs'. walk g acc cur seen sts cs = Inr (seen', cs') \<longrightarrow> set seen \<subseteq> set seen')"
  "walk_branch_dom (Inr (g, acc, c, idx, seen, sts, cs)) \<Longrightarrow>
     (\<forall>seen' cs'. branch g acc c idx seen sts cs = Inr (seen', cs') \<longrightarrow> set seen \<subseteq> set seen')"
proof (induction rule: walk_branch.pinduct)
  case (1 g acc current seen statuses commits)
  show ?case
  proof (intro allI impI)
    fix seen' cs'
    assume r: "walk g acc current seen statuses commits = Inr (seen', cs')"
    note eq = r[unfolded walk.psimps[OF "1.hyps"]]
    from eq obtain c where c: "current = Some c" by (cases current) auto
    show "set seen \<subseteq> set seen'"
    proof (cases "Hash c \<in> set seen")
      case True
      with eq c show ?thesis by simp
    next
      case unseen: False
      show ?thesis
      proof (cases "NumParents c \<noteq> 1")
        case True
        with eq c unseen have "branch g acc c 0 (Hash c # seen) statuses commits = Inr (seen', cs')"
          by simp
        with "1.IH"(1)[OF c unseen True] have "set (Hash c # seen) \<subseteq> set seen'" by blast
        then show ?thesis by auto
      next
        case False
        from eq c unseen False obtain sts' process where
          t: "trackPaths c statuses = Inr (sts', process)"
          by (cases "trackPaths c statuses") auto
        from eq c unseen False t obtain commits' continue where
          a: "(if process then acc c commits else Inr (commits, True)) = Inr (commits', continue)"
          by (cases "if process then acc c commits else Inr (commits, True)") auto
        show ?thesis
        proof (cases continue)
          case True
          with eq c unseen False t a have
            "walk g acc (case Parent (repo g) c 0 of Inl x \<Rightarrow> None | Inr x \<Rightarrow> Some x)
               (Hash c # seen) sts' commits' = Inr (seen', cs')"
            by simp
          with "1.IH"(2)[OF c unseen False t refl a refl] True
          have "set (Hash c # seen) \<subseteq> set seen'" by blast
          then show ?thesis by auto
        next
          case False
          with eq c unseen \<open>\<not> NumParents c \<noteq> 1\<close> t a show ?thesis by auto
        qed
      qed
    qed
  qed
next
  case (2 g acc current idx seen statuses commits)
  show ?case
  proof (intro allI impI)
    fix seen' cs'
    assume r: "branch g acc current idx seen statuses commits = Inr (seen', cs')"
    note eq = r[unfolded branch.psimps[OF "2.hyps"]]
    show "set seen \<subseteq> set seen'"
    proof (cases "idx < NumParents current")
      case False
      with eq show ?thesis by simp
    next
      case lt: True
      from eq lt obtain p where p: "Parent (repo g) current idx = Inr p"
        by (cases "Parent (repo g) current idx") auto
      from eq lt p obtain ancestor where an: "IsAncestor (repo g) p (beginCommit g) = Inr ancestor"
        by (cases "IsAncestor (repo g) p (beginCommit g)") auto
      show ?thesis
      proof (cases "\<not> branchProcess p statuses")
        case True
        with eq lt p an have "branch g acc current (idx + 1) seen statuses commits = Inr (seen', cs')"
          by simp
        with "2.IH"(1)[OF lt p an True] show ?thesis by blast
      next
        case bp: False
        show ?thesis
        proof (cases ancestor)
          case True
          with eq lt p an bp have "branch g acc current (idx + 1) seen statuses commits = Inr (seen', cs')"
            by simp
          with "2.IH"(2)[OF lt p an bp True] show ?thesis by blast
        next
          case False
          from eq lt p an bp False obtain s1 c1 where
            w: "walk g acc (Some p) seen (copyMap statuses) commits = Inr (s1, c1)"
            by (cases "walk g acc (Some p) seen (copyMap statuses) commits") auto
          with eq lt p an bp False have
            b: "branch g acc current (idx + 1) s1 statuses c1 = Inr (seen', cs')"
            by simp
          from "2.IH"(3)[OF lt p an bp False] w have "set seen \<subseteq> set s1" by blast
          moreover from "2.IH"(4)[OF lt p an bp False w refl] b have "set s1 \<subseteq> set seen'" by blast
          ultimately show ?thesis by auto
        qed
      qed
    qed
  qed
qed

lemma card_unseen_less:
  assumes "finite H" "h \<notin> S" "A \<subseteq> H"
  shows "card (A - insert h S) < card (insert h H - S)"
proof -
  have "A - insert h S \<subset> insert h H - S" using assms by auto
  then show ?thesis using assms(1) by (intro psubset_card_mono) auto
qed

termination walk
proof (relation "inv_image (less_than <*lex*> less_than) walk_measure", goal_cases)
  case 1
  show ?case by (intro wf_inv_image wf_lex_prod wf_less_than)
next
  case (2 g acc current seen statuses commits x2)
  have "card (Hash ` set (repo g) - insert (Hash x2) (set seen))
        < card (insert (Hash x2) (Hash ` set (repo g)) - set seen)"
    using 2 by (intro card_unseen_less[where H="Hash ` set (repo g)"]) auto
  then show ?case by (simp add: walk_measure_def 2)
next
  case (3 g acc current seen statuses commits x2 b x y ba xa ya)
  have "(case (case Parent (repo g) x2 0 of Inl x \<Rightarrow> None | Inr x \<Rightarrow> Some x) of None \<Rightarrow> {} | Some c \<Rightarrow> {Hash c})
          \<subseteq> Hash ` set (repo g)"
    by (auto split: sum.splits dest!: Parent_Inr)
  then have "card ((Hash ` set (repo g) \<union> (case (case Parent (repo g) x2 0 of Inl x \<Rightarrow> None | Inr x \<Rightarrow> Some x) of None \<Rightarrow> {} | Some c \<Rightarrow> {Hash c})) - insert (Hash x2) (set seen))
        < card (insert (Hash x2) (Hash ` set (repo g)) - set seen)"
    using 3 by (intro card_unseen_less[where H="Hash ` set (repo g)"]) auto
  then show ?case by (simp add: walk_measure_def 3)
next
  case (4 g acc current idx seen statuses commits b ba)
  then show ?case by (simp add: walk_measure_def)
next
  case (5 g acc current idx seen statuses commits b ba)
  then show ?case by (simp add: walk_measure_def)
next
  case (6 g acc current idx seen statuses commits b ba)
  then have "Hash b \<in> Hash ` set (repo g)" by (auto dest!: Parent_Inr)
  then have "insert (Hash b) (Hash ` set (repo g)) = Hash ` set (repo g)" by auto
  then show ?case by (simp add: walk_measure_def)
next
  case (7 g acc current idx seen statuses commits b ba baa x y)
  then have "set seen \<subseteq> set x" using seen_grows_dom(1) by metis
  then have "card (Hash ` set (repo g) - set x) \<le> card (Hash ` set (repo g) - set seen)"
    by (intro card_mono) auto
  with 7 show ?case by (auto simp: walk_measure_def)
qed

declare walk.simps [simp del] branch.simps [simp del]

section \<open>The walk, step by step\<close>

lemma walk_nil: "walk g acc None seen sts cs = Inl Panic"
  by (simp add: walk.simps)

lemma walk_seen: "Hash c \<in> set seen \<Longrightarrow> walk g acc (Some c) seen sts cs = Inr (seen, cs)"
  by (simp add: walk.simps)

lemma walk_fork:
  "Hash c \<notin> set seen \<Longrightarrow> NumParents c \<noteq> 1 \<Longrightarrow>
     walk g acc (Some c) seen sts cs = branch g acc c 0 (Hash c # seen) sts cs"
  by (simp add: walk.simps)

lemma walk_single:
  "Hash c \<notin> set seen \<Longrightarrow> NumParents c = 1 \<Longrightarrow>
     walk g acc (Some c) seen sts cs =
       (case trackPaths c sts of
          Inl e \<Rightarrow> Inl e
        | Inr (sts', process) \<Rightarrow>
            (case (if process then acc c cs else Inr (cs, True)) of
               Inl e \<Rightarrow> Inl e
             | Inr (cs', continue) \<Rightarrow>
                 if \<not> continue then Inr (Hash c # seen, cs')
                 else walk g acc (case Parent (repo g) c 0 of Inl _ \<Rightarrow> None | Inr next \<Rightarrow> Some next)
                        (Hash c # seen) sts' cs'))"
  by (subst walk.simps) simp

lemma branch_end: "\<not> idx < NumParents c \<Longrightarrow> branch g acc c idx seen sts cs = Inr (seen, cs)"
  by (simp add: branch.simps)

lemma branch_unresolved:
  "idx < NumParents c \<Longrightarrow> Parent (repo g) c idx = Inl u \<Longrightarrow>
     branch g acc c idx seen sts cs = Inl Fatal"
  by (subst branch.simps) simp

lemma branch_untraversable:
  "idx < NumParents c \<Longrightarrow> Parent (repo g) c idx = Inr p \<Longrightarrow>
   IsAncestor (repo g) p (beginCommit g) = Inl u \<Longrightarrow>
     branch g acc c idx seen sts cs = Inl Fatal"
  by (subst branch.simps) simp

lemma branch_skip:
  "idx < NumParents c \<Longrightarrow> Parent (repo g) c idx = Inr p \<Longrightarrow>
   IsAncestor (repo g) p (beginCommit g) = Inr ancestor \<Longrightarrow>
   \<not> branchProcess p sts \<or> ancestor \<Longrightarrow>
     branch g acc c idx seen sts cs = branch g acc c (idx + 1) seen sts cs"
  by (subst branch.simps) auto

lemma branch_descend:
  "idx < NumParents c \<Longrightarrow> Parent (repo g) c idx = Inr p \<Longrightarrow>
   IsAncestor (repo g) p (beginCommit g) = Inr False \<Longrightarrow> branchProcess p sts \<Longrightarrow>
     branch g acc c idx seen sts cs =
       (case walk g acc (Some p) seen (copyMap sts) cs of
          Inl e \<Rightarrow> Inl e
        | Inr (seen', cs') \<Rightarrow> branch g acc c (idx + 1) seen' sts cs')"
  by (subst branch.simps) simp

lemma walk_track_fatal:
  "Hash c \<notin> set seen \<Longrightarrow> NumParents c = 1 \<Longrightarrow> trackPaths c sts = Inl e \<Longrightarrow>
     walk g acc (Some c) seen sts cs = Inl e"
  by (simp add: walk_single)

lemma walk_acc_result:
  assumes "Hash c \<notin> set seen" and "NumParents c = 1"
      and "trackPaths c sts = Inr (sts', process)"
      and "(if process then acc c cs else Inr (cs, True)) = r"
  shows "walk g acc (Some c) seen sts cs =
       (case r of
          Inl e \<Rightarrow> Inl e
        | Inr (cs', continue) \<Rightarrow>
            if \<not> continue then Inr (Hash c # seen, cs')
            else walk g acc (case Parent (repo g) c 0 of Inl _ \<Rightarrow> None | Inr next \<Rightarrow> Some next)
                   (Hash c # seen) sts' cs')"
  unfolding walk_single[OF assms(1,2)] assms(3) assms(4)[symmetric] by simp

text \<open>
  An invariant of the seen map and the result set: it holds after a walk when it holds
  before, marking a commit keeps it and the accumulator keeps it. The commits the walk
  meets are described by a property that the start has and that passes to parents.
\<close>

lemma walk_branch_invariant_aux:
  fixes J :: "string list \<Rightarrow> commitSet \<Rightarrow> bool" and Q :: "commit \<Rightarrow> bool"
  assumes mark: "\<And>c seen cs. Q c \<Longrightarrow> Hash c \<notin> set seen \<Longrightarrow> J seen cs \<Longrightarrow> J (Hash c # seen) cs"
  shows "(\<forall>c seen cs cs' b. Q c \<longrightarrow> NumParents c = 1 \<longrightarrow> J (Hash c # seen) cs \<longrightarrow>
            acc c cs = Inr (cs', b) \<longrightarrow> J (Hash c # seen) cs') \<longrightarrow>
         (\<forall>c i p. Q c \<longrightarrow> Parent (repo g) c i = Inr p \<longrightarrow> Q p) \<longrightarrow>
         (\<forall>c. cur = Some c \<longrightarrow> Q c) \<longrightarrow> J seen cs \<longrightarrow>
           (\<forall>seen' cs'. walk g acc cur seen sts cs = Inr (seen', cs') \<longrightarrow> J seen' cs')"
    and "(\<forall>c seen cs cs' b. Q c \<longrightarrow> NumParents c = 1 \<longrightarrow> J (Hash c # seen) cs \<longrightarrow>
            acc c cs = Inr (cs', b) \<longrightarrow> J (Hash c # seen) cs') \<longrightarrow>
         (\<forall>c i p. Q c \<longrightarrow> Parent (repo g) c i = Inr p \<longrightarrow> Q p) \<longrightarrow>
         Q c \<longrightarrow> J seen cs \<longrightarrow>
           (\<forall>seen' cs'. branch g acc c idx seen sts cs = Inr (seen', cs') \<longrightarrow> J seen' cs')"
proof (induction g acc cur seen sts cs and g acc c idx seen sts cs rule: walk_branch.induct)
  case (1 g acc current seen statuses commits)
  show ?case
  proof (intro allI impI)
    fix seen' cs'
    assume acc0: "\<forall>c seen cs cs' b. Q c \<longrightarrow> NumParents c = 1 \<longrightarrow> J (Hash c # seen) cs \<longrightarrow>
            acc c cs = Inr (cs', b) \<longrightarrow> J (Hash c # seen) cs'"
      and par0: "\<forall>c i p. Q c \<longrightarrow> Parent (repo g) c i = Inr p \<longrightarrow> Q p"
      and q: "\<forall>c. current = Some c \<longrightarrow> Q c" and j: "J seen commits"
      and r: "walk g acc current seen statuses commits = Inr (seen', cs')"
    have acc: "\<And>c seen cs cs' b. Q c \<Longrightarrow> NumParents c = 1 \<Longrightarrow> J (Hash c # seen) cs \<Longrightarrow>
                   acc c cs = Inr (cs', b) \<Longrightarrow> J (Hash c # seen) cs'"
      using acc0 by blast
    have par: "\<And>c i p. Q c \<Longrightarrow> Parent (repo g) c i = Inr p \<Longrightarrow> Q p"
      using par0 by blast
    from r obtain c where c: "current = Some c" by (cases current) (auto simp: walk_nil)
    with q have qc: "Q c" by simp
    show "J seen' cs'"
    proof (cases "Hash c \<in> set seen")
      case True
      with r c j show ?thesis by (simp add: walk_seen)
    next
      case unseen: False
      note j1 = mark[OF qc unseen j]
      show ?thesis
      proof (cases "NumParents c \<noteq> 1")
        case True
        with r c unseen have "branch g acc c 0 (Hash c # seen) statuses commits = Inr (seen', cs')"
          by (simp add: walk_fork)
        with "1.IH"(1)[OF c unseen True] acc0 par0 qc j1 show ?thesis by blast
      next
        case False
        then have one: "NumParents c = 1" by simp
        note eq = r[unfolded c walk_single[OF unseen one]]
        from eq obtain sts' process where
          t: "trackPaths c statuses = Inr (sts', process)"
          by (cases "trackPaths c statuses") auto
        from eq t obtain commits' continue where
          a: "(if process then acc c commits else Inr (commits, True)) = Inr (commits', continue)"
          by (cases "if process then acc c commits else Inr (commits, True)") auto
        have j2: "J (Hash c # seen) commits'"
        proof (cases process)
          case True
          with a have "acc c commits = Inr (commits', continue)" by simp
          from acc[OF qc one j1 this] show ?thesis .
        next
          case False
          with a j1 show ?thesis by simp
        qed
        show ?thesis
        proof (cases continue)
          case True
          with eq t a have w:
            "walk g acc (case Parent (repo g) c 0 of Inl x \<Rightarrow> None | Inr x \<Rightarrow> Some x)
               (Hash c # seen) sts' commits' = Inr (seen', cs')"
            by simp
          have "\<forall>n. (case Parent (repo g) c 0 of Inl x \<Rightarrow> None | Inr x \<Rightarrow> Some x) = Some n \<longrightarrow> Q n"
            using par[OF qc] by (auto split: sum.splits)
          with "1.IH"(2)[OF c unseen False t refl a refl] acc0 par0 True j2 w
          show ?thesis by blast
        next
          case False
          with eq t a j2 show ?thesis by auto
        qed
      qed
    qed
  qed
next
  case (2 g acc current idx seen statuses commits)
  show ?case
  proof (intro allI impI)
    fix seen' cs'
    assume acc0: "\<forall>c seen cs cs' b. Q c \<longrightarrow> NumParents c = 1 \<longrightarrow> J (Hash c # seen) cs \<longrightarrow>
            acc c cs = Inr (cs', b) \<longrightarrow> J (Hash c # seen) cs'"
      and par0: "\<forall>c i p. Q c \<longrightarrow> Parent (repo g) c i = Inr p \<longrightarrow> Q p"
      and qc: "Q current" and j: "J seen commits"
      and r: "branch g acc current idx seen statuses commits = Inr (seen', cs')"
    have par: "\<And>c i p. Q c \<Longrightarrow> Parent (repo g) c i = Inr p \<Longrightarrow> Q p"
      using par0 by blast
    show "J seen' cs'"
    proof (cases "idx < NumParents current")
      case False
      with r j show ?thesis by (simp add: branch_end)
    next
      case lt: True
      from r lt obtain p where p: "Parent (repo g) current idx = Inr p"
        by (cases "Parent (repo g) current idx") (auto simp: branch_unresolved)
      from r lt p obtain ancestor where an: "IsAncestor (repo g) p (beginCommit g) = Inr ancestor"
        by (cases "IsAncestor (repo g) p (beginCommit g)") (auto simp: branch_untraversable)
      show ?thesis
      proof (cases "\<not> branchProcess p statuses")
        case True
        with r lt p an have "branch g acc current (idx + 1) seen statuses commits = Inr (seen', cs')"
          by (simp add: branch_skip)
        with "2.IH"(1)[OF lt p an True] acc0 par0 qc j show ?thesis by blast
      next
        case bp: False
        show ?thesis
        proof (cases ancestor)
          case True
          with r lt p an have "branch g acc current (idx + 1) seen statuses commits = Inr (seen', cs')"
            by (simp add: branch_skip)
          with "2.IH"(2)[OF lt p an bp True] acc0 par0 qc j show ?thesis by blast
        next
          case False
          with an have an': "IsAncestor (repo g) p (beginCommit g) = Inr False" by simp
          from bp have bp': "branchProcess p statuses" by simp
          note eq = r[unfolded branch_descend[OF lt p an' bp']]
          from eq obtain s1 c1 where
            w: "walk g acc (Some p) seen (copyMap statuses) commits = Inr (s1, c1)"
            by (cases "walk g acc (Some p) seen (copyMap statuses) commits") auto
          with eq have b: "branch g acc current (idx + 1) s1 statuses c1 = Inr (seen', cs')"
            by simp
          have "Q p" by (rule par[OF qc p])
          with "2.IH"(3)[OF lt p an bp False] acc0 par0 w j have "J s1 c1" by blast
          with "2.IH"(4)[OF lt p an bp False w refl] acc0 par0 b qc show ?thesis by blast
        qed
      qed
    qed
  qed
qed

lemma walk_invariant:
  assumes "\<And>c seen cs cs' b. Q c \<Longrightarrow> NumParents c = 1 \<Longrightarrow> J (Hash c # seen) cs \<Longrightarrow>
                   acc c cs = Inr (cs', b) \<Longrightarrow> J (Hash c # seen) cs'"
      and "\<And>c seen cs. Q c \<Longrightarrow> Hash c \<notin> set seen \<Longrightarrow> J seen cs \<Longrightarrow> J (Hash c # seen) cs"
      and "\<And>c i p. Q c \<Longrightarrow> Parent (repo g) c i = Inr p \<Longrightarrow> Q p"
      and "Q c0" and "J seen cs"
      and "walk g acc (Some c0) seen sts cs = Inr (seen', cs')"
  shows "J seen' cs'"
  using walk_branch_invariant_aux(1)[of Q J acc g "Some c0" seen cs sts, OF assms(2)] assms(1,3,4,5,6)
  by blast

text \<open>
  The trace of the marked commits follows the recursion of the walk and ends for the
  same reason.
\<close>

lemma walk_seen_suffix:
  assumes "walk g acc cur seen sts cs = Inr (seen', cs')"
  shows "\<exists>new. seen' = new @ seen"
proof -
  from assms obtain c0 where c0: "cur = Some c0" by (cases cur) (auto simp: walk_nil)
  have "(\<lambda>s (cs::commitSet). \<exists>new. s = new @ seen) seen' cs'"
    by (rule walk_invariant[where Q="\<lambda>c. True" and acc=acc and g=g and ?c0.0=c0
          and J="\<lambda>s (cs::commitSet). \<exists>new. s = new @ seen"
          and seen=seen and cs=cs and sts=sts])
       (use assms c0 in auto)
  then show ?thesis .
qed

termination visits
proof (relation "inv_image (less_than <*lex*> less_than) walk_measure", goal_cases)
  case 1
  show ?case by (intro wf_inv_image wf_lex_prod wf_less_than)
next
  case (2 g acc current seen statuses commits x2)
  have "card (Hash ` set (repo g) - insert (Hash x2) (set seen))
        < card (insert (Hash x2) (Hash ` set (repo g)) - set seen)"
    using 2 by (intro card_unseen_less[where H="Hash ` set (repo g)"]) auto
  then show ?case by (simp add: walk_measure_def 2)
next
  case (3 g acc current seen statuses commits x2 b x y ba xa ya)
  have "(case (case Parent (repo g) x2 0 of Inl x \<Rightarrow> None | Inr x \<Rightarrow> Some x) of None \<Rightarrow> {} | Some c \<Rightarrow> {Hash c})
          \<subseteq> Hash ` set (repo g)"
    by (auto split: sum.splits dest!: Parent_Inr)
  then have "card ((Hash ` set (repo g) \<union> (case (case Parent (repo g) x2 0 of Inl x \<Rightarrow> None | Inr x \<Rightarrow> Some x) of None \<Rightarrow> {} | Some c \<Rightarrow> {Hash c})) - insert (Hash x2) (set seen))
        < card (insert (Hash x2) (Hash ` set (repo g)) - set seen)"
    using 3 by (intro card_unseen_less[where H="Hash ` set (repo g)"]) auto
  then show ?case by (simp add: walk_measure_def 3)
next
  case (4 g acc current idx seen statuses commits b ba)
  then show ?case by (simp add: walk_measure_def)
next
  case (5 g acc current idx seen statuses commits b ba)
  then show ?case by (simp add: walk_measure_def)
next
  case (6 g acc current idx seen statuses commits b ba)
  then have "Hash b \<in> Hash ` set (repo g)" by (auto dest!: Parent_Inr)
  then have "insert (Hash b) (Hash ` set (repo g)) = Hash ` set (repo g)" by auto
  then show ?case by (simp add: walk_measure_def)
next
  case (7 g acc current idx seen statuses commits b ba baa x y)
  then have "set seen \<subseteq> set x" using walk_seen_suffix[of g acc "Some b" seen "copyMap statuses" commits x y]
    by auto
  then have "card (Hash ` set (repo g) - set x) \<le> card (Hash ` set (repo g) - set seen)"
    by (intro card_mono) auto
  with 7 show ?case by (auto simp: walk_measure_def)
qed

declare visits.simps [simp del] branchVisits.simps [simp del]

section \<open>The path status tracker\<close>

lemma trackPaths_keys:
  "trackPaths c statuses = Inr (statuses', process) \<Longrightarrow> map fst statuses' = map fst statuses"
  by (induction statuses arbitrary: statuses' process)
     (auto split: if_splits sum.splits option.splits prod.splits)

lemma trackPaths_process:
  "trackPaths c statuses = Inr (statuses', process) \<Longrightarrow>
     process = (\<exists>x \<in> set statuses. snd x \<noteq> fileStatusRemoved \<and> File c (fst x) = None)"
proof (induction statuses arbitrary: statuses' process)
  case Nil
  then show ?case by simp
next
  case (Cons a statuses)
  obtain q t where a: "a = (q, t)" by (cases a)
  from Cons.prems(1) a obtain rest' pr where
    r: "trackPaths c statuses = Inr (rest', pr)"
    by (auto split: if_splits sum.splits option.splits prod.splits)
  note ih = Cons.IH[OF r]
  from Cons.prems a r have
    "process = (pr \<or> (t \<noteq> fileStatusRemoved \<and> File c q = None))"
    by (auto split: if_splits option.splits)
  with ih a show ?case by auto
qed

lemma trackPaths_fatal:
  "(\<exists>e. trackPaths c statuses = Inl e) =
     (\<exists>x \<in> set statuses. snd x \<noteq> fileStatusRemoved \<and> File c (fst x) = Some ErrOther)"
proof (induction statuses)
  case Nil
  show ?case by simp
next
  case (Cons a statuses)
  obtain path s where a: "a = (path, s)" by (cases a)
  show ?case
  proof (cases "File c path")
    case None
    with Cons a show ?thesis by (auto split: sum.splits)
  next
    case (Some err)
    with Cons a show ?thesis by (cases err) (auto split: sum.splits)
  qed
qed

lemma trackPaths_entry:
  "trackPaths c statuses = Inr (statuses', process) \<Longrightarrow> distinct (map fst statuses) \<Longrightarrow>
   map_of statuses path = Some s \<Longrightarrow>
     map_of statuses' path =
       Some (if s = fileStatusRemoved then fileStatusRemoved
             else if File c path = None then fileStatusFound
             else if s = fileStatusFound then fileStatusRemoved
             else s)"
proof (induction statuses arbitrary: statuses' process)
  case Nil
  then show ?case by simp
next
  case (Cons a statuses)
  obtain q t where a: "a = (q, t)" by (cases a)
  from Cons.prems(1) a obtain rest' pr where
    r: "trackPaths c statuses = Inr (rest', pr)"
    by (auto split: if_splits sum.splits option.splits prod.splits)
  from Cons.prems(1) a r obtain t' where
    s': "statuses' = (q, t') # rest'"
    by (auto split: if_splits sum.splits option.splits prod.splits)
  show ?case
  proof (cases "q = path")
    case True
    with Cons.prems a r s' show ?thesis
      by (auto split: if_splits sum.splits option.splits prod.splits)
  next
    case False
    with Cons.prems a have "map_of statuses path = Some s" "distinct (map fst statuses)" by auto
    from Cons.IH[OF r this(2) this(1)] False s' show ?thesis by simp
  qed
qed

lemma trackPaths_distinct:
  "trackPaths c sts = Inr (sts', pr) \<Longrightarrow> distinct (map fst sts) \<Longrightarrow> distinct (map fst sts')"
  using trackPaths_keys[of c sts sts' pr] by simp

text \<open>
  C3. On the single-parent path the update of every entry of the status map follows the
  state table: a Seeking path that exists in the tree of the commit becomes Found and
  sets process; a Seeking path that does not exist stays Seeking; a Found path that
  exists stays Found and sets process; a Found path that does not exist becomes
  Removed; a Removed path stays Removed. The map keeps its paths, and process is true
  exactly when some path that is not Removed exists in the tree of the commit. The walk
  at an unseen commit with one parent runs the accumulator when process is true and
  goes on with the updated map.
\<close>

theorem trackPaths_state_table:
  assumes "distinct (map fst statuses)"
      and "trackPaths c statuses = Inr (statuses', process)"
  shows "map fst statuses' = map fst statuses \<and>
         (\<forall>path s. map_of statuses path = Some s \<longrightarrow>
            (s = fileStatusSeeking \<and> File c path = None \<longrightarrow>
               map_of statuses' path = Some fileStatusFound \<and> process) \<and>
            (s = fileStatusSeeking \<and> File c path = Some ErrFileNotFound \<longrightarrow>
               map_of statuses' path = Some fileStatusSeeking) \<and>
            (s = fileStatusFound \<and> File c path = None \<longrightarrow>
               map_of statuses' path = Some fileStatusFound \<and> process) \<and>
            (s = fileStatusFound \<and> File c path = Some ErrFileNotFound \<longrightarrow>
               map_of statuses' path = Some fileStatusRemoved) \<and>
            (s = fileStatusRemoved \<longrightarrow> map_of statuses' path = Some fileStatusRemoved)) \<and>
         (process \<longleftrightarrow>
            (\<exists>path s. map_of statuses path = Some s \<and> s \<noteq> fileStatusRemoved \<and> File c path = None)) \<and>
         (Hash c \<notin> set seen \<and> NumParents c = 1 \<longrightarrow>
            walk g acc (Some c) seen statuses commits =
              (case (if process then acc c commits else Inr (commits, True)) of
                 Inl e \<Rightarrow> Inl e
               | Inr (commits', continue) \<Rightarrow>
                   if \<not> continue then Inr (Hash c # seen, commits')
                   else walk g acc
                          (case Parent (repo g) c 0 of Inl _ \<Rightarrow> None | Inr next \<Rightarrow> Some next)
                          (Hash c # seen) statuses' commits'))"
proof -
  note e = trackPaths_entry[OF assms(2) assms(1)]
  have p: "process = (\<exists>x \<in> set statuses. snd x \<noteq> fileStatusRemoved \<and> File c (fst x) = None)"
    by (rule trackPaths_process[OF assms(2)])
  have m: "\<And>path s. (map_of statuses path = Some s) = ((path, s) \<in> set statuses)"
    using assms(1) by (auto dest: map_of_SomeD)
  have 1: "map fst statuses' = map fst statuses" by (rule trackPaths_keys[OF assms(2)])
  have 3: "process \<longleftrightarrow>
            (\<exists>path s. map_of statuses path = Some s \<and> s \<noteq> fileStatusRemoved \<and> File c path = None)"
    unfolding p using m by force
  have 2: "\<forall>path s. map_of statuses path = Some s \<longrightarrow>
            (s = fileStatusSeeking \<and> File c path = None \<longrightarrow>
               map_of statuses' path = Some fileStatusFound \<and> process) \<and>
            (s = fileStatusSeeking \<and> File c path = Some ErrFileNotFound \<longrightarrow>
               map_of statuses' path = Some fileStatusSeeking) \<and>
            (s = fileStatusFound \<and> File c path = None \<longrightarrow>
               map_of statuses' path = Some fileStatusFound \<and> process) \<and>
            (s = fileStatusFound \<and> File c path = Some ErrFileNotFound \<longrightarrow>
               map_of statuses' path = Some fileStatusRemoved) \<and>
            (s = fileStatusRemoved \<longrightarrow> map_of statuses' path = Some fileStatusRemoved)"
  proof (intro allI impI)
    fix path s
    assume a: "map_of statuses path = Some s"
    from e[OF a] 3 a show "(s = fileStatusSeeking \<and> File c path = None \<longrightarrow>
               map_of statuses' path = Some fileStatusFound \<and> process) \<and>
            (s = fileStatusSeeking \<and> File c path = Some ErrFileNotFound \<longrightarrow>
               map_of statuses' path = Some fileStatusSeeking) \<and>
            (s = fileStatusFound \<and> File c path = None \<longrightarrow>
               map_of statuses' path = Some fileStatusFound \<and> process) \<and>
            (s = fileStatusFound \<and> File c path = Some ErrFileNotFound \<longrightarrow>
               map_of statuses' path = Some fileStatusRemoved) \<and>
            (s = fileStatusRemoved \<longrightarrow> map_of statuses' path = Some fileStatusRemoved)"
      by auto
  qed
  have 4: "Hash c \<notin> set seen \<and> NumParents c = 1 \<longrightarrow>
            walk g acc (Some c) seen statuses commits =
              (case (if process then acc c commits else Inr (commits, True)) of
                 Inl e \<Rightarrow> Inl e
               | Inr (commits', continue) \<Rightarrow>
                   if \<not> continue then Inr (Hash c # seen, commits')
                   else walk g acc
                          (case Parent (repo g) c 0 of Inl _ \<Rightarrow> None | Inr next \<Rightarrow> Some next)
                          (Hash c # seen) statuses' commits')"
    using walk_acc_result[where acc=acc and cs=commits and g=g and c=c and seen=seen,
        OF _ _ assms(2) refl]
    by blast
  from 1 2 3 4 show ?thesis by blast
qed

theorem trackPaths_state_table_witness:
  "distinct (map fst [(''file.txt'', fileStatusSeeking), (''a.go'', fileStatusFound),
                      (''b.go'', fileStatusRemoved)]) \<and>
   trackPaths commitC [(''file.txt'', fileStatusSeeking), (''a.go'', fileStatusFound),
                       (''b.go'', fileStatusRemoved)]
     = Inr ([(''file.txt'', fileStatusFound), (''a.go'', fileStatusRemoved),
             (''b.go'', fileStatusRemoved)], True) \<and>
   (True \<longleftrightarrow>
      (\<exists>path s. map_of [(''file.txt'', fileStatusSeeking), (''a.go'', fileStatusFound),
                         (''b.go'', fileStatusRemoved)] path = Some s \<and>
                 s \<noteq> fileStatusRemoved \<and> File commitC path = None))"
proof -
  have d: "distinct (map fst [(''file.txt'', fileStatusSeeking), (''a.go'', fileStatusFound),
                      (''b.go'', fileStatusRemoved)])"
    by simp
  have t: "trackPaths commitC [(''file.txt'', fileStatusSeeking), (''a.go'', fileStatusFound),
                       (''b.go'', fileStatusRemoved)]
     = Inr ([(''file.txt'', fileStatusFound), (''a.go'', fileStatusRemoved),
             (''b.go'', fileStatusRemoved)], True)"
    by (simp add: File_def commitC_def)
  from trackPaths_state_table[OF d t, of "[]" linearHistory addAlways "[]"] d t
  show ?thesis by blast
qed

section \<open>Root and merge commits\<close>

lemma copyMap_append_aux:
  "distinct (map fst (n @ m)) \<Longrightarrow> fold (\<lambda>(k, v) n. AList.update k v n) m n = n @ m"
proof (induction m arbitrary: n)
  case Nil
  then show ?case by simp
next
  case (Cons a m)
  obtain k v where a: "a = (k, v)" by (cases a)
  from Cons.prems a have "k \<notin> fst ` set n" by auto
  then have u: "AList.update k v n = n @ [(k, v)]"
    by (induction n) auto
  from Cons.prems a have "distinct (map fst ((n @ [(k, v)]) @ m))" by simp
  from Cons.IH[OF this] u a show ?case by simp
qed

lemma copyMap_distinct: "distinct (map fst m) \<Longrightarrow> copyMap m = m"
  using copyMap_append_aux[of "[]" m] by (simp add: copyMap_def)

lemma branchProcess_iff:
  "branchProcess p statuses \<longleftrightarrow>
     (\<exists>x \<in> set statuses. snd x \<noteq> fileStatusRemoved \<and> File p (fst x) = None) \<or>
     (\<exists>x \<in> set statuses. snd x = fileStatusSeeking)"
  by (induction statuses) (auto split: if_splits)

text \<open>
  C4. At a commit with no parent or with two or more, the walk takes the parents in
  recorded order from index 0 and stops after the last. For the parent \<open>p\<close> at index
  \<open>idx\<close>, branchProcess is true exactly when a path that is not Removed exists in the
  tree of \<open>p\<close> or a path is Seeking. When branchProcess is false or \<open>p\<close> is an ancestor
  of the begin commit, the walk goes on to the next parent with the seen map and the
  result set as they are. Otherwise it walks from \<open>p\<close> with a copy of the status map,
  equal to the map, and goes on to the next parent with the seen map and the result set
  that walk left and with its own status map, not the copy.
\<close>

theorem merge_fan_out:
  assumes "idx < NumParents current"
      and "Parent (repo g) current idx = Inr p"
      and "IsAncestor (repo g) p (beginCommit g) = Inr ancestor"
  shows "(branchProcess p statuses \<longleftrightarrow>
            (\<exists>path s. (path, s) \<in> set statuses \<and> s \<noteq> fileStatusRemoved \<and> File p path = None) \<or>
            (\<exists>path. (path, fileStatusSeeking) \<in> set statuses)) \<and>
         (\<not> branchProcess p statuses \<or> ancestor \<longrightarrow>
            branch g acc current idx seen statuses commits =
            branch g acc current (idx + 1) seen statuses commits) \<and>
         (branchProcess p statuses \<and> \<not> ancestor \<longrightarrow>
            branch g acc current idx seen statuses commits =
            (case walk g acc (Some p) seen (copyMap statuses) commits of
               Inl e \<Rightarrow> Inl e
             | Inr (seen', commits') \<Rightarrow> branch g acc current (idx + 1) seen' statuses commits')) \<and>
         (distinct (map fst statuses) \<longrightarrow> copyMap statuses = statuses) \<and>
         (Hash current \<notin> set seen \<and> NumParents current \<noteq> 1 \<longrightarrow>
            walk g acc (Some current) seen statuses commits =
            branch g acc current 0 (Hash current # seen) statuses commits) \<and>
         branch g acc current (NumParents current) seen statuses commits = Inr (seen, commits)"
proof (intro conjI impI)
  show "branchProcess p statuses \<longleftrightarrow>
            (\<exists>path s. (path, s) \<in> set statuses \<and> s \<noteq> fileStatusRemoved \<and> File p path = None) \<or>
            (\<exists>path. (path, fileStatusSeeking) \<in> set statuses)"
    unfolding branchProcess_iff by force
next
  assume "\<not> branchProcess p statuses \<or> ancestor"
  then show "branch g acc current idx seen statuses commits =
            branch g acc current (idx + 1) seen statuses commits"
    by (rule branch_skip[OF assms])
next
  assume a: "branchProcess p statuses \<and> \<not> ancestor"
  with assms(3) have "IsAncestor (repo g) p (beginCommit g) = Inr False" by simp
  from branch_descend[OF assms(1,2) this] a
  show "branch g acc current idx seen statuses commits =
            (case walk g acc (Some p) seen (copyMap statuses) commits of
               Inl e \<Rightarrow> Inl e
             | Inr (seen', commits') \<Rightarrow> branch g acc current (idx + 1) seen' statuses commits')"
    by simp
next
  assume "distinct (map fst statuses)"
  then show "copyMap statuses = statuses" by (rule copyMap_distinct)
next
  assume "Hash current \<notin> set seen \<and> NumParents current \<noteq> 1"
  then show "walk g acc (Some current) seen statuses commits =
            branch g acc current 0 (Hash current # seen) statuses commits"
    by (simp add: walk_fork)
next
  show "branch g acc current (NumParents current) seen statuses commits = Inr (seen, commits)"
    by (simp add: branch_end)
qed

theorem merge_fan_out_witness:
  "0 < NumParents diamondD \<and>
   Parent (repo diamondHistory) diamondD 0 = Inr diamondB \<and>
   IsAncestor (repo diamondHistory) diamondB (beginCommit diamondHistory) = Inr False \<and>
   branchProcess diamondB [(''f.go'', fileStatusFound)] \<and>
   branch diamondHistory addAlways diamondD 0 [''D''] [(''f.go'', fileStatusFound)] [] =
     (case walk diamondHistory addAlways (Some diamondB) [''D'']
             (copyMap [(''f.go'', fileStatusFound)]) [] of
        Inl e \<Rightarrow> Inl e
      | Inr (seen', commits') \<Rightarrow>
          branch diamondHistory addAlways diamondD (0 + 1) seen' [(''f.go'', fileStatusFound)] commits')"
proof -
  have 1: "0 < NumParents diamondD" by code_simp
  have 2: "Parent (repo diamondHistory) diamondD 0 = Inr diamondB" by code_simp
  have 3: "IsAncestor (repo diamondHistory) diamondB (beginCommit diamondHistory) = Inr False"
    by code_simp
  have 4: "branchProcess diamondB [(''f.go'', fileStatusFound)]" by code_simp
  from merge_fan_out[OF 1 2 3, of "[(''f.go'', fileStatusFound)]" addAlways "[''D'']" "[]"] 1 2 3 4
  show ?thesis by blast
qed

section \<open>Removed paths\<close>

lemma liveEntries_simps [simp]:
  "liveEntries [] = []"
  "liveEntries ((p, s) # rest) =
     (if s = fileStatusRemoved then liveEntries rest else (p, s) # liveEntries rest)"
  by (simp_all add: liveEntries_def)

lemma trackPaths_live:
  "(\<exists>e. trackPaths c sts = Inl e \<and> trackPaths c (liveEntries sts) = Inl e) \<or>
   (\<exists>s1 s2 pr. trackPaths c sts = Inr (s1, pr) \<and> trackPaths c (liveEntries sts) = Inr (s2, pr) \<and>
      liveEntries s1 = liveEntries s2)"
proof (induction sts)
  case Nil
  show ?case by auto
next
  case (Cons a sts)
  obtain q t where a: "a = (q, t)" by (cases a)
  from Cons.IH show ?case
  proof (elim disjE exE conjE)
    fix e
    assume "trackPaths c sts = Inl e" "trackPaths c (liveEntries sts) = Inl e"
    then show ?thesis
      unfolding a by (cases "File c q") (auto split: if_splits)
  next
    fix s1 s2 pr
    assume "trackPaths c sts = Inr (s1, pr)" "trackPaths c (liveEntries sts) = Inr (s2, pr)"
      "liveEntries s1 = liveEntries s2"
    then show ?thesis
      unfolding a by (cases "File c q"; cases t) (auto split: if_splits)
  qed
qed

lemma trackPaths_live_eq:
  assumes "liveEntries a = liveEntries b"
  shows "(\<exists>e. trackPaths c a = Inl e \<and> trackPaths c b = Inl e) \<or>
         (\<exists>s1 s2 pr. trackPaths c a = Inr (s1, pr) \<and> trackPaths c b = Inr (s2, pr) \<and>
            liveEntries s1 = liveEntries s2)"
  using trackPaths_live[of c a] trackPaths_live[of c b] unfolding assms
  by (elim disjE exE conjE) auto

lemma branchProcess_live: "branchProcess p (liveEntries sts) = branchProcess p sts"
  by (induction sts) (auto split: if_splits)

lemma branchProcess_live_eq:
  "liveEntries a = liveEntries b \<Longrightarrow> branchProcess p a = branchProcess p b"
  using branchProcess_live[of p a] branchProcess_live[of p b] by simp

text \<open>
  The walk depends on the status map through its entries that are not Removed only.
\<close>

lemma walk_branch_live:
  "(\<forall>sts2. distinct (map fst sts) \<longrightarrow> distinct (map fst sts2) \<longrightarrow>
      liveEntries sts2 = liveEntries sts \<longrightarrow>
      walk g acc cur seen sts2 cs = walk g acc cur seen sts cs)"
  "(\<forall>sts2. distinct (map fst sts) \<longrightarrow> distinct (map fst sts2) \<longrightarrow>
      liveEntries sts2 = liveEntries sts \<longrightarrow>
      branch g acc c idx seen sts2 cs = branch g acc c idx seen sts cs)"
proof (induction g acc cur seen sts cs and g acc c idx seen sts cs rule: walk_branch.induct)
  case (1 g acc current seen statuses commits)
  show ?case
  proof (intro allI impI)
    fix sts2
    assume d1: "distinct (map fst statuses)" and d2: "distinct (map fst sts2)"
      and lv: "liveEntries sts2 = liveEntries statuses"
    show "walk g acc current seen sts2 commits = walk g acc current seen statuses commits"
    proof (cases current)
      case None
      then show ?thesis by (simp add: walk_nil)
    next
      case (Some c)
      show ?thesis
      proof (cases "Hash c \<in> set seen")
        case True
        with Some show ?thesis by (simp add: walk_seen)
      next
        case unseen: False
        show ?thesis
        proof (cases "NumParents c \<noteq> 1")
          case True
          from "1.IH"(1)[OF Some unseen True, rule_format, OF d1 d2 lv]
          show ?thesis unfolding Some walk_fork[OF unseen True] .
        next
          case False
          then have one: "NumParents c = 1" by simp
          from trackPaths_live_eq[OF lv, of c] show ?thesis
          proof (elim disjE exE conjE)
            fix e
            assume "trackPaths c sts2 = Inl e" "trackPaths c statuses = Inl e"
            with Some unseen one show ?thesis by (simp add: walk_track_fatal)
          next
            fix s1 s2 pr
            assume t2: "trackPaths c sts2 = Inr (s1, pr)"
              and t1: "trackPaths c statuses = Inr (s2, pr)"
              and l: "liveEntries s1 = liveEntries s2"
            note l2 = walk_acc_result[where acc=acc and cs=commits and g=g, OF unseen one t2 refl]
            note l1 = walk_acc_result[where acc=acc and cs=commits and g=g, OF unseen one t1 refl]
            show ?thesis
            proof (cases "if pr then acc c commits else Inr (commits, True)")
              case (Inl e)
              show ?thesis unfolding Some l1 l2 Inl by simp
            next
              case ar: (Inr ap)
              obtain commits' continue where ap: "ap = (commits', continue)" by (cases ap)
              show ?thesis
              proof (cases continue)
                case True
                from True have nn: "\<not> \<not> continue" by simp
                have "walk g acc (case Parent (repo g) c 0 of Inl x \<Rightarrow> None | Inr x \<Rightarrow> Some x)
                        (Hash c # seen) s1 commits' =
                      walk g acc (case Parent (repo g) c 0 of Inl x \<Rightarrow> None | Inr x \<Rightarrow> Some x)
                        (Hash c # seen) s2 commits'"
                  by (rule "1.IH"(2)[OF Some unseen False t1 refl ar ap[symmetric] nn, rule_format,
                        OF trackPaths_distinct[OF t1 d1] trackPaths_distinct[OF t2 d2] l])
                with True show ?thesis unfolding Some l1 l2 ar ap by simp
              next
                case False
                then show ?thesis unfolding Some l1 l2 ar ap by simp
              qed
            qed
          qed
        qed
      qed
    qed
  qed
next
  case (2 g acc current idx seen statuses commits)
  show ?case
  proof (intro allI impI)
    fix sts2
    assume d1: "distinct (map fst statuses)" and d2: "distinct (map fst sts2)"
      and lv: "liveEntries sts2 = liveEntries statuses"
    note bpe = branchProcess_live_eq[OF lv]
    show "branch g acc current idx seen sts2 commits = branch g acc current idx seen statuses commits"
    proof (cases "idx < NumParents current")
      case False
      then show ?thesis by (simp add: branch_end)
    next
      case lt: True
      show ?thesis
      proof (cases "Parent (repo g) current idx")
        case (Inl u)
        with lt show ?thesis by (simp add: branch_unresolved)
      next
        case p: (Inr p)
        show ?thesis
        proof (cases "IsAncestor (repo g) p (beginCommit g)")
          case (Inl u)
          with lt p show ?thesis by (simp add: branch_untraversable)
        next
          case an: (Inr ancestor)
          show ?thesis
          proof (cases "\<not> branchProcess p statuses")
            case True
            with bpe[of p] have t2: "\<not> branchProcess p sts2" by simp
            from "2.IH"(1)[OF lt p an True, rule_format, OF d1 d2 lv]
            show ?thesis
              unfolding branch_skip[OF lt p an disjI1[OF True]] branch_skip[OF lt p an disjI1[OF t2]] .
          next
            case bp: False
            show ?thesis
            proof (cases ancestor)
              case True
              from "2.IH"(2)[OF lt p an bp True, rule_format, OF d1 d2 lv]
              show ?thesis
                unfolding branch_skip[OF lt p an disjI2[OF True]] .
            next
              case False
              with an have an': "IsAncestor (repo g) p (beginCommit g) = Inr False" by simp
              from bp have bp1: "branchProcess p statuses" by simp
              with bpe[of p] have bp2: "branchProcess p sts2" by simp
              have w: "walk g acc (Some p) seen (copyMap sts2) commits =
                       walk g acc (Some p) seen (copyMap statuses) commits"
                unfolding copyMap_distinct[OF d1] copyMap_distinct[OF d2]
                using "2.IH"(3)[OF lt p an bp False, rule_format, of sts2] d1 d2 lv
                unfolding copyMap_distinct[OF d1] by blast
              show ?thesis
              proof (cases "walk g acc (Some p) seen (copyMap statuses) commits")
                case (Inl e)
                with w have w': "walk g acc (Some p) seen (copyMap sts2) commits = Inl e"
                  by simp
                show ?thesis
                  unfolding branch_descend[OF lt p an' bp1] branch_descend[OF lt p an' bp2] Inl w'
                  by simp
              next
                case wr: (Inr sc)
                obtain s1 c1 where sc: "sc = (s1, c1)" by (cases sc)
                from w wr sc have w': "walk g acc (Some p) seen (copyMap sts2) commits = Inr (s1, c1)"
                  by simp
                have "branch g acc current (idx + 1) s1 sts2 c1 =
                      branch g acc current (idx + 1) s1 statuses c1"
                  by (rule "2.IH"(4)[OF lt p an bp False wr sc[symmetric], rule_format, OF d1 d2 lv])
                then show ?thesis
                  unfolding branch_descend[OF lt p an' bp1] branch_descend[OF lt p an' bp2]
                    wr[unfolded sc] w'
                  by simp
              qed
            qed
          qed
        qed
      qed
    qed
  qed
qed

lemma liveEntries_delete_removed:
  "distinct (map fst sts) \<Longrightarrow> map_of sts path = Some fileStatusRemoved \<Longrightarrow>
     liveEntries (AList.delete path sts) = liveEntries sts"
proof (induction sts)
  case Nil
  then show ?case by simp
next
  case (Cons a sts)
  obtain q t where a: "a = (q, t)" by (cases a)
  show ?case
  proof (cases "q = path")
    case True
    with Cons.prems a have t: "t = fileStatusRemoved" and "path \<notin> fst ` set sts" by auto
    then have "AList.delete path sts = sts" by simp
    with True a t show ?thesis by (simp add: AList.delete_eq)
  next
    case False
    with Cons a show ?thesis by (simp add: AList.delete_eq)
  qed
qed

text \<open>
  C5. A path that is Removed in a status map stays Removed at every commit the tracker
  is run on, whether or not the path exists in the tree of the commit, and gives no
  process signal there; it has no part in branchProcess; the copy of the map for a
  branch holds it as Removed; and the whole walk from any commit returns what it
  returns for the map without that path.
\<close>

theorem removed_is_final:
  assumes "distinct (map fst statuses)"
      and "map_of statuses path = Some fileStatusRemoved"
  shows "(\<forall>c statuses' process. trackPaths c statuses = Inr (statuses', process) \<longrightarrow>
            map_of statuses' path = Some fileStatusRemoved \<and>
            distinct (map fst statuses') \<and>
            (process \<longleftrightarrow>
               (\<exists>q s. (q, s) \<in> set statuses \<and> q \<noteq> path \<and> s \<noteq> fileStatusRemoved \<and>
                      File c q = None))) \<and>
         (\<forall>p. branchProcess p statuses = branchProcess p (AList.delete path statuses)) \<and>
         map_of (copyMap statuses) path = Some fileStatusRemoved \<and>
         (\<forall>g acc current seen commits.
            walk g acc current seen statuses commits =
            walk g acc current seen (AList.delete path statuses) commits)"
proof (intro conjI allI impI)
  fix c statuses' process
  assume t: "trackPaths c statuses = Inr (statuses', process)"
  from trackPaths_entry[OF t assms(1) assms(2)]
  show "map_of statuses' path = Some fileStatusRemoved" by simp
  show "distinct (map fst statuses')" by (rule trackPaths_distinct[OF t assms(1)])
  have only: "\<And>s. (path, s) \<in> set statuses \<Longrightarrow> s = fileStatusRemoved"
    using assms by (metis map_of_is_SomeI option.inject)
  have "process = (\<exists>x \<in> set statuses. snd x \<noteq> fileStatusRemoved \<and> File c (fst x) = None)"
    by (rule trackPaths_process[OF t])
  also have "\<dots> = (\<exists>q s. (q, s) \<in> set statuses \<and> q \<noteq> path \<and> s \<noteq> fileStatusRemoved \<and>
                      File c q = None)"
    using only by force
  finally show "process \<longleftrightarrow>
               (\<exists>q s. (q, s) \<in> set statuses \<and> q \<noteq> path \<and> s \<noteq> fileStatusRemoved \<and>
                      File c q = None)" .
next
  fix p
  show "branchProcess p statuses = branchProcess p (AList.delete path statuses)"
    by (rule branchProcess_live_eq[OF liveEntries_delete_removed[OF assms, symmetric]])
next
  show "map_of (copyMap statuses) path = Some fileStatusRemoved"
    using assms by (simp add: copyMap_distinct)
next
  fix g acc current seen commits
  have d: "distinct (map fst (AList.delete path statuses))"
    using assms(1) by (rule distinct_delete)
  show "walk g acc current seen statuses commits =
        walk g acc current seen (AList.delete path statuses) commits"
    by (rule walk_branch_live(1)[rule_format, OF d assms(1)
          liveEntries_delete_removed[OF assms, symmetric]])
qed

theorem removed_is_final_witness:
  "distinct (map fst [(''file.txt'', fileStatusRemoved), (''a.go'', fileStatusFound)]) \<and>
   map_of [(''file.txt'', fileStatusRemoved), (''a.go'', fileStatusFound)] ''file.txt''
     = Some fileStatusRemoved \<and>
   File commitC ''file.txt'' = None \<and>
   trackPaths commitC [(''file.txt'', fileStatusRemoved), (''a.go'', fileStatusFound)]
     = Inr ([(''file.txt'', fileStatusRemoved), (''a.go'', fileStatusRemoved)], False) \<and>
   walk linearHistory addAlways (Some commitD) []
        [(''file.txt'', fileStatusRemoved), (''a.go'', fileStatusFound)] [] =
   walk linearHistory addAlways (Some commitD) []
        (AList.delete ''file.txt'' [(''file.txt'', fileStatusRemoved), (''a.go'', fileStatusFound)]) []"
proof -
  have d: "distinct (map fst [(''file.txt'', fileStatusRemoved), (''a.go'', fileStatusFound)])"
    by simp
  have m: "map_of [(''file.txt'', fileStatusRemoved), (''a.go'', fileStatusFound)] ''file.txt''
     = Some fileStatusRemoved"
    by simp
  have f: "File commitC ''file.txt'' = None" by (simp add: File_def commitC_def)
  have t: "trackPaths commitC [(''file.txt'', fileStatusRemoved), (''a.go'', fileStatusFound)]
     = Inr ([(''file.txt'', fileStatusRemoved), (''a.go'', fileStatusRemoved)], False)"
    by (simp add: File_def commitC_def)
  from removed_is_final[OF d m] d m f t show ?thesis by blast
qed

section \<open>The seen map\<close>

lemma set_update_subset: "set (AList.update k v al) \<subseteq> insert (k, v) (set al)"
  by (induction al) auto

lemma addAlways_result:
  "addAlways c cs = Inr (cs', b) \<Longrightarrow> set cs' \<subseteq> insert (Hash c, c) (set cs)"
  using set_update_subset[of "Hash c" c cs] by (auto simp: addAlways_def)

lemma addIfNotAncestor_result:
  "addIfNotAncestor r base c cs = Inr (cs', b) \<Longrightarrow> set cs' \<subseteq> insert (Hash c, c) (set cs)"
  using set_update_subset[of "Hash c" c cs]
  by (auto simp: addIfNotAncestor_def split: sum.splits if_splits)

lemma diamond_addedWalk:
  "addedWalk diamondHistory addedFile [] =
     Inr ([''C'', ''R'', ''A'', ''B'', ''D''],
          [(''B'', diamondB), (''A'', diamondA), (''C'', diamondC)])"
  by code_simp

lemma diamond_commitsSet:
  "commitsSet diamondHistory addedFile =
     Inr [(''B'', diamondB), (''A'', diamondA), (''C'', diamondC)]"
  by code_simp

lemma walk_seen_distinct:
  assumes "distinct seen" and "walk g acc cur seen sts cs = Inr (seen', cs')"
  shows "distinct seen' \<and> (\<exists>new. seen' = new @ seen)"
proof -
  from assms(2) obtain c0 where c0: "cur = Some c0" by (cases cur) (auto simp: walk_nil)
  have "(\<lambda>s (cs::commitSet). distinct s \<and> (\<exists>new. s = new @ seen)) seen' cs'"
    by (rule walk_invariant[where Q="\<lambda>c. True" and acc=acc and g=g and ?c0.0=c0
          and J="\<lambda>s (cs::commitSet). distinct s \<and> (\<exists>new. s = new @ seen)"
          and seen=seen and cs=cs and sts=sts])
       (use assms c0 in auto)
  then show ?thesis .
qed

lemma accumulate_fresh_distinct:
  "accumulateCommitsForPaths g cur None sts acc cs = Inr (seen', cs') \<Longrightarrow> distinct seen'"
  using walk_seen_distinct[of "[]" g acc cur sts cs seen' cs']
  by (simp add: accumulateCommitsForPaths_def)

text \<open>
  The trace of a call, step by step as the walk.
\<close>

lemma visits_nil: "visits g acc None seen sts cs = []"
  by (simp add: visits.simps)

lemma visits_seen: "Hash c \<in> set seen \<Longrightarrow> visits g acc (Some c) seen sts cs = []"
  by (simp add: visits.simps)

lemma visits_fork:
  "Hash c \<notin> set seen \<Longrightarrow> NumParents c \<noteq> 1 \<Longrightarrow>
     visits g acc (Some c) seen sts cs =
       (Hash c, False) # branchVisits g acc c 0 (Hash c # seen) sts cs"
  by (simp add: visits.simps)

lemma visits_track_fatal:
  "Hash c \<notin> set seen \<Longrightarrow> NumParents c = 1 \<Longrightarrow> trackPaths c sts = Inl e \<Longrightarrow>
     visits g acc (Some c) seen sts cs = [(Hash c, False)]"
  by (subst visits.simps) simp

lemma visits_acc_result:
  assumes "Hash c \<notin> set seen" and "NumParents c = 1"
      and "trackPaths c sts = Inr (sts', process)"
      and "(if process then acc c cs else Inr (cs, True)) = r"
  shows "visits g acc (Some c) seen sts cs =
       (case r of
          Inl e \<Rightarrow> [(Hash c, process)]
        | Inr (cs', continue) \<Rightarrow>
            if \<not> continue then [(Hash c, process)]
            else (Hash c, process) #
                 visits g acc (case Parent (repo g) c 0 of Inl _ \<Rightarrow> None | Inr next \<Rightarrow> Some next)
                   (Hash c # seen) sts' cs')"
  using assms(1,2) unfolding assms(4)[symmetric]
  by (subst visits.simps) (simp add: assms(3))

lemma branchVisits_end: "\<not> idx < NumParents c \<Longrightarrow> branchVisits g acc c idx seen sts cs = []"
  by (simp add: branchVisits.simps)

lemma branchVisits_unresolved:
  "idx < NumParents c \<Longrightarrow> Parent (repo g) c idx = Inl u \<Longrightarrow>
     branchVisits g acc c idx seen sts cs = []"
  by (subst branchVisits.simps) simp

lemma branchVisits_untraversable:
  "idx < NumParents c \<Longrightarrow> Parent (repo g) c idx = Inr p \<Longrightarrow>
   IsAncestor (repo g) p (beginCommit g) = Inl u \<Longrightarrow>
     branchVisits g acc c idx seen sts cs = []"
  by (subst branchVisits.simps) simp

lemma branchVisits_skip:
  "idx < NumParents c \<Longrightarrow> Parent (repo g) c idx = Inr p \<Longrightarrow>
   IsAncestor (repo g) p (beginCommit g) = Inr ancestor \<Longrightarrow>
   \<not> branchProcess p sts \<or> ancestor \<Longrightarrow>
     branchVisits g acc c idx seen sts cs = branchVisits g acc c (idx + 1) seen sts cs"
  by (subst branchVisits.simps) auto

lemma branchVisits_descend:
  "idx < NumParents c \<Longrightarrow> Parent (repo g) c idx = Inr p \<Longrightarrow>
   IsAncestor (repo g) p (beginCommit g) = Inr False \<Longrightarrow> branchProcess p sts \<Longrightarrow>
     branchVisits g acc c idx seen sts cs =
       visits g acc (Some p) seen (copyMap sts) cs @
       (case walk g acc (Some p) seen (copyMap sts) cs of
          Inl e \<Rightarrow> []
        | Inr (seen', cs') \<Rightarrow> branchVisits g acc c (idx + 1) seen' sts cs')"
  by (subst branchVisits.simps) simp

text \<open>
  No commit is marked twice in a call, none that the call was given as seen is marked
  again, and the seen map that the call returns holds every commit it marked, whatever
  branch marked it.
\<close>

lemma visits_trace:
  "distinct (map fst (visits g acc cur seen sts cs)) \<and>
   set (map fst (visits g acc cur seen sts cs)) \<inter> set seen = {} \<and>
   (\<forall>seen' cs'. walk g acc cur seen sts cs = Inr (seen', cs') \<longrightarrow>
      seen' = rev (map fst (visits g acc cur seen sts cs)) @ seen)"
  "distinct (map fst (branchVisits g acc c idx seen sts cs)) \<and>
   set (map fst (branchVisits g acc c idx seen sts cs)) \<inter> set seen = {} \<and>
   (\<forall>seen' cs'. branch g acc c idx seen sts cs = Inr (seen', cs') \<longrightarrow>
      seen' = rev (map fst (branchVisits g acc c idx seen sts cs)) @ seen)"
proof (induction g acc cur seen sts cs and g acc c idx seen sts cs rule: walk_branch.induct)
  case (1 g acc current seen statuses commits)
  show ?case
  proof (cases current)
    case None
    then show ?thesis by (simp add: visits_nil walk_nil)
  next
    case (Some c)
    show ?thesis
    proof (cases "Hash c \<in> set seen")
      case True
      with Some show ?thesis by (simp add: visits_seen walk_seen)
    next
      case unseen: False
      show ?thesis
      proof (cases "NumParents c \<noteq> 1")
        case True
        note ih = "1.IH"(1)[OF Some unseen True]
        from ih unseen show ?thesis
          unfolding Some visits_fork[OF unseen True] walk_fork[OF unseen True]
          by auto
      next
        case False
        then have one: "NumParents c = 1" by simp
        show ?thesis
        proof (cases "trackPaths c statuses")
          case (Inl e)
          with unseen show ?thesis
            unfolding Some visits_track_fatal[OF unseen one Inl] walk_track_fatal[OF unseen one Inl]
            by simp
        next
          case (Inr tp)
          obtain sts' process where tp: "tp = (sts', process)" by (cases tp)
          note t = Inr[unfolded tp]
          note w = walk_acc_result[where acc=acc and cs=commits and g=g, OF unseen one t refl]
          note v = visits_acc_result[where acc=acc and cs=commits and g=g, OF unseen one t refl]
          show ?thesis
          proof (cases "if process then acc c commits else Inr (commits, True)")
            case (Inl e)
            with unseen show ?thesis unfolding Some w v by simp
          next
            case ar: (Inr ap)
            obtain commits' continue where ap: "ap = (commits', continue)" by (cases ap)
            show ?thesis
            proof (cases continue)
              case True
              then have nn: "\<not> \<not> continue" by simp
              note ih = "1.IH"(2)[OF Some unseen False t refl ar ap[symmetric] nn]
              from ih unseen True show ?thesis unfolding Some w v ar ap by auto
            next
              case False
              with unseen show ?thesis unfolding Some w v ar ap by simp
            qed
          qed
        qed
      qed
    qed
  qed
next
  case (2 g acc current idx seen statuses commits)
  show ?case
  proof (cases "idx < NumParents current")
    case False
    then show ?thesis by (simp add: branchVisits_end branch_end)
  next
    case lt: True
    show ?thesis
    proof (cases "Parent (repo g) current idx")
      case (Inl u)
      with lt show ?thesis by (simp add: branchVisits_unresolved branch_unresolved)
    next
      case p: (Inr p)
      show ?thesis
      proof (cases "IsAncestor (repo g) p (beginCommit g)")
        case (Inl u)
        with lt p show ?thesis by (simp add: branchVisits_untraversable branch_untraversable)
      next
        case an: (Inr ancestor)
        show ?thesis
        proof (cases "\<not> branchProcess p statuses")
          case True
          from "2.IH"(1)[OF lt p an True] show ?thesis
            unfolding branch_skip[OF lt p an disjI1[OF True]]
              branchVisits_skip[OF lt p an disjI1[OF True]] .
        next
          case bp: False
          show ?thesis
          proof (cases ancestor)
            case True
            from "2.IH"(2)[OF lt p an bp True] show ?thesis
              unfolding branch_skip[OF lt p an disjI2[OF True]]
                branchVisits_skip[OF lt p an disjI2[OF True]] .
          next
            case False
            with an have an': "IsAncestor (repo g) p (beginCommit g) = Inr False" by simp
            from bp have bp': "branchProcess p statuses" by simp
            note b = branch_descend[OF lt p an' bp']
            note v = branchVisits_descend[OF lt p an' bp']
            note ih1 = "2.IH"(3)[OF lt p an bp False]
            show ?thesis
            proof (cases "walk g acc (Some p) seen (copyMap statuses) commits")
              case (Inl e)
              with ih1 show ?thesis unfolding b v by simp
            next
              case wr: (Inr sc)
              obtain s1 c1 where sc: "sc = (s1, c1)" by (cases sc)
              note w = wr[unfolded sc]
              note ih2 = "2.IH"(4)[OF lt p an bp False wr sc[symmetric]]
              from ih1 w have s1: "s1 = rev (map fst (visits g acc (Some p) seen (copyMap statuses) commits)) @ seen"
                by blast
              then have sub: "set seen \<subseteq> set s1"
                "set (map fst (visits g acc (Some p) seen (copyMap statuses) commits)) \<subseteq> set s1"
                by auto
              from ih1 have d1: "distinct (map fst (visits g acc (Some p) seen (copyMap statuses) commits))"
                and i1: "set (map fst (visits g acc (Some p) seen (copyMap statuses) commits)) \<inter> set seen = {}"
                by blast+
              from ih2 have d2: "distinct (map fst (branchVisits g acc current (idx + 1) s1 statuses c1))"
                and i2: "set (map fst (branchVisits g acc current (idx + 1) s1 statuses c1)) \<inter> set s1 = {}"
                and r2: "\<forall>seen' cs'. branch g acc current (idx + 1) s1 statuses c1 = Inr (seen', cs') \<longrightarrow>
                   seen' = rev (map fst (branchVisits g acc current (idx + 1) s1 statuses c1)) @ s1"
                by blast+
              have A: "distinct (map fst (visits g acc (Some p) seen (copyMap statuses) commits @
                          branchVisits g acc current (idx + 1) s1 statuses c1))"
                using d1 d2 i2 sub(2) by auto
              have B: "set (map fst (visits g acc (Some p) seen (copyMap statuses) commits @
                          branchVisits g acc current (idx + 1) s1 statuses c1)) \<inter> set seen = {}"
                using i1 i2 sub(1) by auto
              have C: "\<forall>seen' cs'. branch g acc current (idx + 1) s1 statuses c1 = Inr (seen', cs') \<longrightarrow>
                   seen' = rev (map fst (visits g acc (Some p) seen (copyMap statuses) commits @
                          branchVisits g acc current (idx + 1) s1 statuses c1)) @ seen"
                using r2 s1 by simp
              from A B C show ?thesis unfolding b v w by simp
            qed
          qed
        qed
      qed
    qed
  qed
qed

lemma diamond_visits:
  "visits diamondHistory addAlways (Some (endCommit diamondHistory)) []
      (initStatuses (added addedFile) fileStatusFound) []
     = [(''D'', False), (''B'', True), (''A'', True), (''R'', False), (''C'', True)]"
  by code_simp

text \<open>
  C6. A walk that reaches a commit of the seen map returns at once, marks nothing and
  changes nothing. In one walk no commit is marked twice, and so none is handed to the
  accumulator twice; no commit of the seen map given to the walk is marked again; and
  the seen map the walk returns is the given one with every commit the walk marked in
  front, in whatever branch it was marked: the map is shared by the branches. A walk
  entered with nil starts from the empty map, and the seen map that each of the three
  walks of the added, removed and changed files returns holds the commits that this
  walk marked and no other.
\<close>

theorem seen_set_visits_once:
  "(Hash c \<in> set seen \<longrightarrow>
      walk g acc (Some c) seen sts cs = Inr (seen, cs) \<and> visits g acc (Some c) seen sts cs = []) \<and>
   distinct (map fst (visits g acc cur seen sts cs)) \<and>
   set (map fst (visits g acc cur seen sts cs)) \<inter> set seen = {} \<and>
   (walk g acc cur seen sts cs = Inr (seen', cs') \<longrightarrow>
      seen' = rev (map fst (visits g acc cur seen sts cs)) @ seen) \<and>
   (distinct seen \<and> walk g acc cur seen sts cs = Inr (seen', cs') \<longrightarrow>
      distinct seen' \<and> (\<exists>new. seen' = new @ seen)) \<and>
   accumulateCommitsForPaths g cur None sts acc cs = walk g acc cur [] sts cs \<and>
   (addedWalk g cl cs = Inr (seen', cs') \<longrightarrow>
      seen' = rev (map fst (visits g addAlways (Some (endCommit g)) []
                              (initStatuses (added cl) fileStatusFound) cs)) \<and>
      distinct seen') \<and>
   (removedWalk g cl cs = Inr (seen', cs') \<longrightarrow>
      seen' = rev (map fst (visits g (addIfNotAncestor (repo g) (endCommit g)) (Some (endCommit g)) []
                              (initStatuses (removed cl) fileStatusSeeking) cs)) \<and>
      distinct seen') \<and>
   (changedWalk g cl cs = Inr (seen', cs') \<longrightarrow>
      seen' = rev (map fst (visits g (addIfNotAncestor (repo g) (endCommit g)) (Some (endCommit g)) []
                              (initStatuses (changed cl) fileStatusFound) cs)) \<and>
      distinct seen')"
proof -
  have fresh: "seen' = rev (map fst (visits g a (Some (endCommit g)) [] s cs)) \<and> distinct seen'"
    if "accumulateCommitsForPaths g (Some (endCommit g)) None s a cs = Inr (seen', cs')" for a s
  proof -
    from that have w: "walk g a (Some (endCommit g)) [] s cs = Inr (seen', cs')"
      by (simp add: accumulateCommitsForPaths_def)
    with visits_trace(1)[of g a "Some (endCommit g)" "[]" s cs]
    show ?thesis by auto
  qed
  have 1: "Hash c \<in> set seen \<longrightarrow>
      walk g acc (Some c) seen sts cs = Inr (seen, cs) \<and> visits g acc (Some c) seen sts cs = []"
    by (simp add: walk_seen visits_seen)
  note t = visits_trace(1)[of g acc cur seen sts cs]
  have 5: "distinct seen \<and> walk g acc cur seen sts cs = Inr (seen', cs') \<longrightarrow>
      distinct seen' \<and> (\<exists>new. seen' = new @ seen)"
    using walk_seen_distinct[of seen g acc cur sts cs seen' cs'] by blast
  have 6: "accumulateCommitsForPaths g cur None sts acc cs = walk g acc cur [] sts cs"
    by (simp add: accumulateCommitsForPaths_def)
  show ?thesis
    using 1 t 5 6 fresh
    unfolding addedWalk_def removedWalk_def changedWalk_def
    by blast
qed

theorem seen_set_visits_once_witness:
  "addedWalk diamondHistory addedFile [] =
     Inr ([''C'', ''R'', ''A'', ''B'', ''D''],
          [(''B'', diamondB), (''A'', diamondA), (''C'', diamondC)]) \<and>
   visits diamondHistory addAlways (Some (endCommit diamondHistory)) []
      (initStatuses (added addedFile) fileStatusFound) []
     = [(''D'', False), (''B'', True), (''A'', True), (''R'', False), (''C'', True)] \<and>
   distinct [''C'', ''R'', ''A'', ''B'', ''D'']"
proof -
  have "distinct [''C'', ''R'', ''A'', ''B'', ''D'']"
    using seen_set_visits_once[where g=diamondHistory and cl=addedFile and cs="[]"
        and seen'="[''C'', ''R'', ''A'', ''B'', ''D'']"
        and cs'="[(''B'', diamondB), (''A'', diamondA), (''C'', diamondC)]"]
      diamond_addedWalk
    by blast
  with diamond_addedWalk diamond_visits show ?thesis by blast
qed

section \<open>What the accumulator is given\<close>

lemma walk_branch_acc_cong:
  "(\<forall>c cs. NumParents c = 1 \<longrightarrow> acc c cs = acc' c cs) \<longrightarrow>
     walk g acc cur seen sts cs = walk g acc' cur seen sts cs"
  "(\<forall>c cs. NumParents c = 1 \<longrightarrow> acc c cs = acc' c cs) \<longrightarrow>
     branch g acc c idx seen sts cs = branch g acc' c idx seen sts cs"
proof (induction g acc cur seen sts cs and g acc c idx seen sts cs rule: walk_branch.induct)
  case (1 g acc current seen statuses commits)
  show ?case
  proof
    assume ag: "\<forall>c cs. NumParents c = 1 \<longrightarrow> acc c cs = acc' c cs"
    show "walk g acc current seen statuses commits = walk g acc' current seen statuses commits"
    proof (cases current)
      case None
      then show ?thesis by (simp add: walk_nil)
    next
      case (Some c)
      show ?thesis
      proof (cases "Hash c \<in> set seen")
        case True
        with Some show ?thesis by (simp add: walk_seen)
      next
        case unseen: False
        show ?thesis
        proof (cases "NumParents c \<noteq> 1")
          case True
          with "1.IH"(1)[OF Some unseen True] ag Some unseen show ?thesis
            by (simp add: walk_fork)
        next
          case False
          then have one: "NumParents c = 1" by simp
          show ?thesis
          proof (cases "trackPaths c statuses")
            case (Inl e)
            with Some unseen one show ?thesis by (simp add: walk_single)
          next
            case (Inr tp)
            obtain sts' process where tp: "tp = (sts', process)" by (cases tp)
            have same: "(if process then acc' c commits else Inr (commits, True)) =
                        (if process then acc c commits else Inr (commits, True))"
              using ag one by simp
            note t = Inr[unfolded tp]
            note l = walk_acc_result[where acc=acc and cs=commits and g=g, OF unseen one t refl]
            note r = walk_acc_result[where acc=acc' and cs=commits and g=g, OF unseen one t same]
            show ?thesis
            proof (cases "if process then acc c commits else Inr (commits, True)")
              case (Inl e)
              show ?thesis unfolding Some l r Inl by simp
            next
              case ar: (Inr ap)
              obtain commits' continue where ap: "ap = (commits', continue)" by (cases ap)
              show ?thesis
              proof (cases continue)
                case True
                from "1.IH"(2)[OF Some unseen False Inr tp[symmetric] ar ap[symmetric]] True ag
                have "walk g acc (case Parent (repo g) c 0 of Inl x \<Rightarrow> None | Inr x \<Rightarrow> Some x)
                        (Hash c # seen) sts' commits' =
                      walk g acc' (case Parent (repo g) c 0 of Inl x \<Rightarrow> None | Inr x \<Rightarrow> Some x)
                        (Hash c # seen) sts' commits'"
                  by simp
                with True show ?thesis unfolding Some l r ar ap by simp
              next
                case False
                then show ?thesis unfolding Some l r ar ap by simp
              qed
            qed
          qed
        qed
      qed
    qed
  qed
next
  case (2 g acc current idx seen statuses commits)
  show ?case
  proof
    assume ag: "\<forall>c cs. NumParents c = 1 \<longrightarrow> acc c cs = acc' c cs"
    show "branch g acc current idx seen statuses commits = branch g acc' current idx seen statuses commits"
    proof (cases "idx < NumParents current")
      case False
      then show ?thesis by (simp add: branch_end)
    next
      case lt: True
      show ?thesis
      proof (cases "Parent (repo g) current idx")
        case (Inl u)
        with lt show ?thesis by (simp add: branch_unresolved)
      next
        case p: (Inr p)
        show ?thesis
        proof (cases "IsAncestor (repo g) p (beginCommit g)")
          case (Inl u)
          with lt p show ?thesis by (simp add: branch_untraversable)
        next
          case an: (Inr ancestor)
          show ?thesis
          proof (cases "\<not> branchProcess p statuses")
            case True
            with "2.IH"(1)[OF lt p an True] ag lt p an show ?thesis
              by (simp add: branch_skip[where ancestor=ancestor])
          next
            case bp: False
            show ?thesis
            proof (cases ancestor)
              case True
              with "2.IH"(2)[OF lt p an bp True] ag lt p an show ?thesis
                by (simp add: branch_skip[where ancestor=ancestor])
            next
              case False
              with an have an': "IsAncestor (repo g) p (beginCommit g) = Inr False" by simp
              from bp have bp': "branchProcess p statuses" by simp
              from "2.IH"(3)[OF lt p an bp False] ag
              have w: "walk g acc (Some p) seen (copyMap statuses) commits =
                       walk g acc' (Some p) seen (copyMap statuses) commits"
                by simp
              show ?thesis
              proof (cases "walk g acc (Some p) seen (copyMap statuses) commits")
                case (Inl e)
                with w have w': "walk g acc' (Some p) seen (copyMap statuses) commits = Inl e"
                  by simp
                show ?thesis
                  unfolding branch_descend[OF lt p an' bp'] Inl w' by simp
              next
                case wr: (Inr sc)
                obtain s1 c1 where sc: "sc = (s1, c1)" by (cases sc)
                from w wr sc have w': "walk g acc' (Some p) seen (copyMap statuses) commits = Inr (s1, c1)"
                  by simp
                from "2.IH"(4)[OF lt p an bp False wr sc[symmetric]] ag
                have "branch g acc current (idx + 1) s1 statuses c1 =
                      branch g acc' current (idx + 1) s1 statuses c1"
                  by simp
                then show ?thesis
                  unfolding branch_descend[OF lt p an' bp'] wr[unfolded sc] w' by simp
              qed
            qed
          qed
        qed
      qed
    qed
  qed
qed

lemma walk_single_parent_results:
  assumes "\<And>c cs cs' b. acc c cs = Inr (cs', b) \<Longrightarrow> set cs' \<subseteq> insert (Hash c, c) (set cs)"
      and "\<forall>x \<in> set cs. NumParents (snd x) = 1"
      and "walk g acc (Some c0) seen sts cs = Inr (seen', cs')"
    shows "\<forall>x \<in> set cs'. NumParents (snd x) = 1"
proof -
  have "(\<lambda>seen cs. \<forall>x \<in> set cs. NumParents (snd x) = 1) seen' cs'"
  proof (rule walk_invariant[where Q="\<lambda>c. True" and acc=acc and g=g and ?c0.0=c0
          and J="\<lambda>(seen::string list) cs. \<forall>x \<in> set cs. NumParents (snd x) = 1"
          and seen=seen and cs=cs and sts=sts])
    fix c seen cs cs' b
    assume "NumParents c = 1" "\<forall>x\<in>set cs. NumParents (snd x) = 1" "acc c cs = Inr (cs', b)"
    with assms(1)[of c cs cs' b] show "\<forall>x\<in>set cs'. NumParents (snd x) = 1" by auto
  qed (use assms in auto)
  then show ?thesis .
qed

lemma accumulate_single_parent_results:
  assumes "\<And>c cs cs' b. acc c cs = Inr (cs', b) \<Longrightarrow> set cs' \<subseteq> insert (Hash c, c) (set cs)"
      and "\<forall>x \<in> set cs. NumParents (snd x) = 1"
      and "accumulateCommitsForPaths g (Some c0) so sts acc cs = Inr (seen', cs')"
    shows "\<forall>x \<in> set cs'. NumParents (snd x) = 1"
  using walk_single_parent_results[of acc cs g c0 "case so of None \<Rightarrow> [] | Some s \<Rightarrow> s" sts seen' cs']
    assms
  by (simp add: accumulateCommitsForPaths_def)

lemma commitsSet_single_parent:
  assumes "commitsSet g cl = Inr commits"
  shows "\<forall>x \<in> set commits. NumParents (snd x) = 1"
proof -
  from assms obtain s1 c1 s2 c2 s3 where
    1: "addedWalk g cl [] = Inr (s1, c1)" and
    2: "removedWalk g cl c1 = Inr (s2, c2)" and
    3: "changedWalk g cl c2 = Inr (s3, commits)"
    by (auto simp: commitsSet_def split: sum.splits prod.splits)
  have "\<forall>x \<in> set c1. NumParents (snd x) = 1"
    using accumulate_single_parent_results[OF addAlways_result _ 1[unfolded addedWalk_def]] by simp
  then have "\<forall>x \<in> set c2. NumParents (snd x) = 1"
    using accumulate_single_parent_results[OF addIfNotAncestor_result _ 2[unfolded removedWalk_def]]
    by simp
  then show ?thesis
    using accumulate_single_parent_results[OF addIfNotAncestor_result _ 3[unfolded changedWalk_def]]
    by simp
qed

text \<open>
  C10. The accumulator is run on commits with exactly one parent only: a walk returns
  the same for two accumulators that agree on those commits, whatever they do on root
  and merge commits. So every commit of the result set has exactly one parent; a root
  or a merge commit is never in it, whatever its tree holds.
\<close>

theorem accumulator_single_parent_only:
  "((\<forall>c cs. NumParents c = 1 \<longrightarrow> acc c cs = acc' c cs) \<longrightarrow>
      accumulateCommitsForPaths g current seen statuses acc commits =
      accumulateCommitsForPaths g current seen statuses acc' commits) \<and>
   (commitsSet g cl = Inr result \<longrightarrow> (\<forall>x \<in> set result. NumParents (snd x) = 1))"
  using walk_branch_acc_cong(1)[of acc acc' g current _ statuses commits]
    commitsSet_single_parent[of g cl result]
  by (simp add: accumulateCommitsForPaths_def)

theorem accumulator_single_parent_only_witness:
  "NumParents diamondD = 2 \<and> File diamondD ''f.go'' = None \<and>
   rejectOthers diamondD [] = Inl Fatal \<and>
   accumulateCommitsForPaths diamondHistory (Some diamondD) None [(''f.go'', fileStatusFound)]
     rejectOthers [] =
   accumulateCommitsForPaths diamondHistory (Some diamondD) None [(''f.go'', fileStatusFound)]
     addAlways [] \<and>
   commitsSet diamondHistory addedFile =
     Inr [(''B'', diamondB), (''A'', diamondA), (''C'', diamondC)] \<and>
   NumParents diamondB = 1 \<and> NumParents diamondA = 1 \<and> NumParents diamondC = 1"
proof -
  have h: "\<forall>c cs. NumParents c = 1 \<longrightarrow> addAlways c cs = rejectOthers c cs"
    by (simp add: rejectOthers_def)
  have d: "NumParents diamondD = 2" "File diamondD ''f.go'' = None"
    "rejectOthers diamondD [] = Inl Fatal"
    by (simp_all add: NumParents_def File_def diamondD_def rejectOthers_def)
  note t = accumulator_single_parent_only[where acc=addAlways and acc'=rejectOthers
      and g=diamondHistory and cl=addedFile
      and result="[(''B'', diamondB), (''A'', diamondA), (''C'', diamondC)]"]
  from t h have
    "accumulateCommitsForPaths diamondHistory (Some diamondD) None [(''f.go'', fileStatusFound)]
       rejectOthers [] =
     accumulateCommitsForPaths diamondHistory (Some diamondD) None [(''f.go'', fileStatusFound)]
       addAlways []"
    by metis
  moreover from t diamond_commitsSet have
    "NumParents diamondB = 1 \<and> NumParents diamondA = 1 \<and> NumParents diamondC = 1"
    by simp
  ultimately show ?thesis using d diamond_commitsSet by blast
qed

section \<open>The window of the result\<close>

lemma CommitObject_self: "CommitObject r h = Some p \<Longrightarrow> CommitObject r (Hash p) = Some p"
  using CommitObject_Some[of r h p] by simp

lemma Parent_edge:
  assumes "CommitObject r (Hash c) = Some c" and "Parent r c i = Inr p"
  shows "(Hash c, Hash p) \<in> set (edges r) \<and> CommitObject r (Hash p) = Some p"
proof -
  from assms(2) have i: "i < length (ParentHashes c)"
    and p: "CommitObject r (ParentHashes c ! i) = Some p"
    by (auto simp: Parent_def split: if_splits option.splits)
  from p have hp: "Hash p = ParentHashes c ! i" and self: "CommitObject r (Hash p) = Some p"
    using CommitObject_Some[OF p] CommitObject_self[OF p] by simp_all
  from i hp have "Hash p \<in> set (ParentHashes c)" by simp
  moreover from assms(1) have "c \<in> set r" by (simp add: CommitObject_Some)
  ultimately have "(Hash c, Hash p) \<in> set (edges r)"
    using assms(1) self unfolding edges_def by auto
  with self show ?thesis by simp
qed

lemma reaches_step: "reaches r a b \<Longrightarrow> (b, c) \<in> set (edges r) \<Longrightarrow> reaches r a c"
  unfolding reaches_def by (auto intro: trancl_into_trancl)

lemma IsAncestor_reaches: "reaches r (Hash other) (Hash c) \<Longrightarrow> IsAncestor r c other = Inr True"
  by (simp add: IsAncestor_def)

lemma onHistory_end:
  "CommitObject (repo g) (Hash (endCommit g)) = Some (endCommit g) \<Longrightarrow> onHistory g (endCommit g)"
  by (simp add: onHistory_def reaches_def)

lemma onHistory_parent: "onHistory g c \<Longrightarrow> Parent (repo g) c i = Inr p \<Longrightarrow> onHistory g p"
  unfolding onHistory_def using Parent_edge[of "repo g" c i p] reaches_step by blast

lemma onHistory_ancestor: "onHistory g c \<Longrightarrow> IsAncestor (repo g) c (endCommit g) = Inr True"
  by (simp add: onHistory_def IsAncestor_reaches)

text \<open>
  The accumulator of the removed and changed files is given the end commit as its base.
  Every commit a walk from the end commit meets is an ancestor of the end commit, so
  this accumulator adds none and stops the walk at the first commit it is asked about.
\<close>

lemma gated_walk_adds_nothing:
  assumes "CommitObject (repo g) (Hash (endCommit g)) = Some (endCommit g)"
      and "accumulateCommitsForPaths g (Some (endCommit g)) so sts
             (addIfNotAncestor (repo g) (endCommit g)) cs = Inr (seen', cs')"
    shows "cs' = cs"
proof -
  have "(\<lambda>(s::string list) cs1. cs1 = cs) seen' cs'"
  proof (rule walk_invariant[where Q="onHistory g" and g=g and ?c0.0="endCommit g"
        and J="\<lambda>(s::string list) cs1. cs1 = cs"
        and acc="addIfNotAncestor (repo g) (endCommit g)"
        and seen="case so of None \<Rightarrow> [] | Some s \<Rightarrow> s" and cs=cs and sts=sts])
    fix c seen cs0 cs1 b
    assume "onHistory g c" "cs0 = cs"
      and "addIfNotAncestor (repo g) (endCommit g) c cs0 = Inr (cs1, b)"
    then show "cs1 = cs"
      by (simp add: addIfNotAncestor_def onHistory_ancestor)
  qed (use assms in \<open>auto simp: accumulateCommitsForPaths_def onHistory_end
         intro: onHistory_parent\<close>)
  then show ?thesis .
qed

lemma walk_results_onHistory:
  assumes "CommitObject (repo g) (Hash (endCommit g)) = Some (endCommit g)"
      and "\<And>c cs cs' b. acc c cs = Inr (cs', b) \<Longrightarrow> set cs' \<subseteq> insert (Hash c, c) (set cs)"
      and "\<forall>x \<in> set cs. onHistory g (snd x)"
      and "accumulateCommitsForPaths g (Some (endCommit g)) so sts acc cs = Inr (seen', cs')"
    shows "\<forall>x \<in> set cs'. onHistory g (snd x)"
proof -
  have "(\<lambda>(s::string list) cs. \<forall>x \<in> set cs. onHistory g (snd x)) seen' cs'"
  proof (rule walk_invariant[where Q="onHistory g" and g=g and ?c0.0="endCommit g"
        and J="\<lambda>(s::string list) cs. \<forall>x \<in> set cs. onHistory g (snd x)"
        and acc=acc and seen="case so of None \<Rightarrow> [] | Some s \<Rightarrow> s" and cs=cs and sts=sts])
    fix c seen cs0 cs1 b
    assume "onHistory g c" "\<forall>x \<in> set cs0. onHistory g (snd x)" "acc c cs0 = Inr (cs1, b)"
    with assms(2)[of c cs0 cs1 b] show "\<forall>x \<in> set cs1. onHistory g (snd x)" by auto
  qed (use assms in \<open>auto simp: accumulateCommitsForPaths_def onHistory_end
         intro: onHistory_parent\<close>)
  then show ?thesis .
qed

lemma commitsSet_onHistory:
  assumes e: "CommitObject (repo g) (Hash (endCommit g)) = Some (endCommit g)"
      and "commitsSet g cl = Inr commits"
  shows "\<forall>x \<in> set commits. onHistory g (snd x)"
proof -
  from assms(2) obtain s1 c1 s2 c2 s3 where
    1: "addedWalk g cl [] = Inr (s1, c1)" and
    2: "removedWalk g cl c1 = Inr (s2, c2)" and
    3: "changedWalk g cl c2 = Inr (s3, commits)"
    by (auto simp: commitsSet_def split: sum.splits prod.splits)
  have "\<forall>x \<in> set c1. onHistory g (snd x)"
    using walk_results_onHistory[OF e addAlways_result _ 1[unfolded addedWalk_def]] by simp
  then have "\<forall>x \<in> set c2. onHistory g (snd x)"
    using walk_results_onHistory[OF e addIfNotAncestor_result _ 2[unfolded removedWalk_def]]
    by simp
  then show ?thesis
    using walk_results_onHistory[OF e addIfNotAncestor_result _ 3[unfolded changedWalk_def]]
    by simp
qed

text \<open>
  C1. When the end commit is an object of the store, every commit of a sequence that
  computeDiffCommits returns is an ancestor of the end commit. The walk of the removed
  files and the walk of the changed files leave the result set as they find it, so no
  commit that they add to it is an ancestor of the begin commit. The walk of the added
  files is not held to that: in the forked history it adds R, an ancestor of the begin
  commit.
\<close>

theorem diff_commits_window:
  assumes "CommitObject (repo g) (Hash (endCommit g)) = Some (endCommit g)"
  shows "(\<forall>commits. computeDiffCommits g cl (Inr commits) \<longrightarrow>
            (\<forall>c \<in> set commits. IsAncestor (repo g) c (endCommit g) = Inr True)) \<and>
         (\<forall>before seen after. removedWalk g cl before = Inr (seen, after) \<longrightarrow>
            after = before \<and>
            (\<forall>x \<in> set after. x \<notin> set before \<longrightarrow>
               IsAncestor (repo g) (snd x) (beginCommit g) \<noteq> Inr True)) \<and>
         (\<forall>before seen after. changedWalk g cl before = Inr (seen, after) \<longrightarrow>
            after = before \<and>
            (\<forall>x \<in> set after. x \<notin> set before \<longrightarrow>
               IsAncestor (repo g) (snd x) (beginCommit g) \<noteq> Inr True))"
proof (intro conjI allI impI ballI)
  fix commits c
  assume r: "computeDiffCommits g cl (Inr commits)" and c: "c \<in> set commits"
  from r obtain cs where cs: "commitsSet g cl = Inr cs" and m: "mset commits = mset (map snd cs)"
    by (auto simp: computeDiffCommits_def split: sum.splits)
  from m have "set commits = set (map snd cs)" by (rule mset_eq_setD)
  then have "set commits = snd ` set cs" by simp
  with c commitsSet_onHistory[OF assms cs] have "onHistory g c" by auto
  then show "IsAncestor (repo g) c (endCommit g) = Inr True" by (rule onHistory_ancestor)
next
  fix before seen after
  assume w: "removedWalk g cl before = Inr (seen, after)"
  show "after = before"
    by (rule gated_walk_adds_nothing[OF assms w[unfolded removedWalk_def]])
next
  fix before seen after x
  assume w: "removedWalk g cl before = Inr (seen, after)" and x: "x \<in> set after" "x \<notin> set before"
  from gated_walk_adds_nothing[OF assms w[unfolded removedWalk_def]] x
  show "IsAncestor (repo g) (snd x) (beginCommit g) \<noteq> Inr True"
    by simp
next
  fix before seen after
  assume w: "changedWalk g cl before = Inr (seen, after)"
  show "after = before"
    by (rule gated_walk_adds_nothing[OF assms w[unfolded changedWalk_def]])
next
  fix before seen after x
  assume w: "changedWalk g cl before = Inr (seen, after)" and x: "x \<in> set after" "x \<notin> set before"
  from gated_walk_adds_nothing[OF assms w[unfolded changedWalk_def]] x
  show "IsAncestor (repo g) (snd x) (beginCommit g) \<noteq> Inr True"
    by simp
qed

lemma forked_commitsSet:
  "commitsSet forkedHistory forkedChanges = Inr [(''Y'', forkY), (''R'', forkR)]"
  by code_simp

lemma forked_changedWalk:
  "changedWalk forkedHistory forkedChanges [(''Y'', forkY), (''R'', forkR)]
     = Inr ([''Y''], [(''Y'', forkY), (''R'', forkR)])"
  by code_simp

lemma forked_computeDiffCommits:
  "computeDiffCommits forkedHistory forkedChanges (Inr [forkR, forkY])"
  unfolding computeDiffCommits_def forked_commitsSet
  by (simp add: sortedByWhen_def forkR_def forkY_def)

theorem diff_commits_window_witness:
  "CommitObject (repo forkedHistory) (Hash (endCommit forkedHistory))
     = Some (endCommit forkedHistory) \<and>
   computeDiffCommits forkedHistory forkedChanges (Inr [forkR, forkY]) \<and>
   IsAncestor (repo forkedHistory) forkR (endCommit forkedHistory) = Inr True \<and>
   IsAncestor (repo forkedHistory) forkY (endCommit forkedHistory) = Inr True \<and>
   IsAncestor (repo forkedHistory) forkR (beginCommit forkedHistory) = Inr True \<and>
   File forkY ''g.go'' = None \<and>
   changedWalk forkedHistory forkedChanges [(''Y'', forkY), (''R'', forkR)]
     = Inr ([''Y''], [(''Y'', forkY), (''R'', forkR)])"
proof -
  have e: "CommitObject (repo forkedHistory) (Hash (endCommit forkedHistory))
             = Some (endCommit forkedHistory)"
    by code_simp
  have b: "IsAncestor (repo forkedHistory) forkR (beginCommit forkedHistory) = Inr True"
    by code_simp
  have f: "File forkY ''g.go'' = None"
    by (simp add: File_def forkY_def)
  from diff_commits_window[OF e, of forkedChanges] forked_computeDiffCommits
  have "\<forall>c \<in> set [forkR, forkY]. IsAncestor (repo forkedHistory) c (endCommit forkedHistory) = Inr True"
    by blast
  with e b f forked_computeDiffCommits forked_changedWalk show ?thesis by simp
qed

section \<open>The removed file of the linear history\<close>

lemma addPatches_within_trees:
  assumes "filePatchesFor b e patches" and "addPatches cl0 patches = Inr cl"
  shows "set (added cl) \<subseteq> set (added cl0) \<union> set (Tree e) \<and>
         set (removed cl) \<subseteq> set (removed cl0) \<union> set (Tree b) \<and>
         set (changed cl) \<subseteq> set (changed cl0) \<union> (set (Tree b) \<inter> set (Tree e))"
  using assms
proof (induction patches arbitrary: cl0)
  case Nil
  then show ?case by simp
next
  case (Cons patch patches)
  from Cons.prems(2) obtain cl1 where
    1: "addPatch cl0 patch = Inr cl1" and 2: "addPatches cl1 patches = Inr cl"
    by (auto split: sum.splits)
  from Cons.prems(1) have rest: "filePatchesFor b e patches"
    and here: "(case fst patch of None \<Rightarrow> True | Some srcFile \<Rightarrow> srcFile \<in> set (Tree b))"
              "(case snd patch of None \<Rightarrow> True | Some dstFile \<Rightarrow> dstFile \<in> set (Tree e))"
    by (simp_all add: filePatchesFor_def)
  note ih = Cons.IH[OF rest 2]
  obtain s d where pd: "patch = (s, d)" by (cases patch)
  have step: "set (added cl1) \<subseteq> set (added cl0) \<union> set (Tree e) \<and>
         set (removed cl1) \<subseteq> set (removed cl0) \<union> set (Tree b) \<and>
         set (changed cl1) \<subseteq> set (changed cl0) \<union> (set (Tree b) \<inter> set (Tree e))"
    using 1 here unfolding pd by (cases s; cases d) (auto split: if_splits)
  from ih step show ?case by blast
qed

lemma changedFiles_within_trees:
  assumes "filePatchesFor b e patches" and "changedFiles patches = Inr cl"
  shows "set (added cl) \<subseteq> set (Tree e) \<and> set (removed cl) \<subseteq> set (Tree b) \<and>
         set (changed cl) \<subseteq> set (Tree b) \<inter> set (Tree e)"
  using addPatches_within_trees[OF assms(1) assms(2)[unfolded changedFiles_def]] by simp

lemma filePatchesFor_empty_trees:
  assumes "filePatchesFor b e patches" and "Tree b = []" and "Tree e = []"
  shows "patches = []"
proof (cases patches)
  case Nil
  then show ?thesis .
next
  case (Cons patch rest)
  obtain s d where pd: "patch = (s, d)" by (cases patch)
  from assms Cons pd show ?thesis
    by (cases s; cases d) (simp_all add: filePatchesFor_def)
qed

lemma linear_no_changes_set: "commitsSet linearHistory noChanges = Inr []"
  by code_simp

lemma linear_no_changes_result: "computeDiffCommits linearHistory noChanges out = (out = Inr [])"
  unfolding computeDiffCommits_def linear_no_changes_set
  by (cases out) (auto simp: sortedByWhen_def)

text \<open>
  C2, as the claim states it, fails: in the linear history A, B, C, D the file
  \<^verbatim>\<open>file.txt\<close> is in the tree of neither A nor D, so no tree diff of the two has a
  patch for it. The diff has no patch at all, the change list is empty, the walk of
  the removed files walks D, C, B and A with no path to look for, and no commit is
  reported.
\<close>

theorem linear_history_counterexample:
  "filePatchesFor (beginCommit linearHistory) (endCommit linearHistory) [] \<and>
   \<not> filePatchesFor (beginCommit linearHistory) (endCommit linearHistory) [(Some ''file.txt'', None)] \<and>
   changedFiles [] = Inr noChanges \<and>
   ''file.txt'' \<notin> set (removed noChanges) \<and>
   removedWalk linearHistory noChanges [] = Inr ([''A'', ''B'', ''C'', ''D''], []) \<and>
   commitsSet linearHistory noChanges = Inr []"
  by code_simp

text \<open>
  C2, amended. A path is listed as removed or changed only if it is in the tree of the
  begin commit, and as added or changed only if it is in the tree of the end commit.
  For the linear history with A as the begin and D as the end commit, whatever the
  tree diff gives, \<^verbatim>\<open>file.txt\<close> is in none of the three lists, the change list is
  empty, and computeDiffCommits returns the empty sequence and nothing else.
\<close>

theorem unchanged_path_is_not_listed:
  "(filePatchesFor b e filePatches \<and> changedFiles filePatches = Inr cl \<longrightarrow>
      set (added cl) \<subseteq> set (Tree e) \<and> set (removed cl) \<subseteq> set (Tree b) \<and>
      set (changed cl) \<subseteq> set (Tree b) \<inter> set (Tree e)) \<and>
   (filePatchesFor (beginCommit linearHistory) (endCommit linearHistory) filePatches \<longrightarrow>
      changedFiles filePatches = Inr noChanges \<and>
      ''file.txt'' \<notin> set (added noChanges) \<union> set (removed noChanges) \<union> set (changed noChanges) \<and>
      computeDiffCommits linearHistory noChanges out = (out = Inr []))"
proof (intro conjI impI)
  assume "filePatchesFor b e filePatches \<and> changedFiles filePatches = Inr cl"
  then show "set (added cl) \<subseteq> set (Tree e)" "set (removed cl) \<subseteq> set (Tree b)"
    "set (changed cl) \<subseteq> set (Tree b) \<inter> set (Tree e)"
    using changedFiles_within_trees[of b e filePatches cl] by blast+
next
  assume a: "filePatchesFor (beginCommit linearHistory) (endCommit linearHistory) filePatches"
  have "Tree (beginCommit linearHistory) = []" "Tree (endCommit linearHistory) = []"
    by (simp_all add: linearHistory_def commitA_def commitD_def)
  from filePatchesFor_empty_trees[OF a this] have e: "filePatches = []" .
  show "changedFiles filePatches = Inr noChanges"
    unfolding e by (simp add: changedFiles_def noChanges_def)
  show "''file.txt'' \<notin> set (added noChanges) \<union> set (removed noChanges) \<union> set (changed noChanges)"
    by (simp add: noChanges_def)
  show "computeDiffCommits linearHistory noChanges out = (out = Inr [])"
    by (rule linear_no_changes_result)
qed

theorem unchanged_path_is_not_listed_witness:
  "filePatchesFor (beginCommit linearHistory) (endCommit linearHistory) [] \<and>
   changedFiles [] = Inr noChanges \<and>
   computeDiffCommits linearHistory noChanges (Inr []) \<and>
   \<not> computeDiffCommits linearHistory noChanges (Inr [commitB, commitC]) \<and>
   filePatchesFor forkX forkY [(None, Some ''f.go''), (Some ''g.go'', Some ''g.go'')] \<and>
   changedFiles [(None, Some ''f.go''), (Some ''g.go'', Some ''g.go'')] = Inr forkedChanges \<and>
   set (added forkedChanges) \<subseteq> set (Tree forkY)"
proof -
  have 1: "filePatchesFor (beginCommit linearHistory) (endCommit linearHistory) []"
    by (simp add: filePatchesFor_def)
  have 2: "filePatchesFor forkX forkY [(None, Some ''f.go''), (Some ''g.go'', Some ''g.go'')]"
    by (simp add: filePatchesFor_def forkX_def forkY_def)
  have 3: "changedFiles [(None, Some ''f.go''), (Some ''g.go'', Some ''g.go'')] = Inr forkedChanges"
    by code_simp
  note a = unchanged_path_is_not_listed[where filePatches="[]" and out="Inr []"]
  note b = unchanged_path_is_not_listed[where filePatches="[]" and out="Inr [commitB, commitC]"]
  note c = unchanged_path_is_not_listed[where b=forkX and e=forkY and cl=forkedChanges
      and filePatches="[(None, Some ''f.go''), (Some ''g.go'', Some ''g.go'')]"]
  from a 1 have 4: "changedFiles [] = Inr noChanges"
    "computeDiffCommits linearHistory noChanges (Inr [])"
    by simp_all
  from b 1 have 5: "\<not> computeDiffCommits linearHistory noChanges (Inr [commitB, commitC])"
    by simp
  from c 2 3 have 6: "set (added forkedChanges) \<subseteq> set (Tree forkY)"
    by blast
  from 1 2 3 4 5 6 show ?thesis by blast
qed

section \<open>Parents that do not resolve\<close>

text \<open>
  In the loop over the parents of a root or merge commit, a parent that does not
  resolve is fatal (\<open>branch_unresolved\<close>). On the single-parent path the error is
  only logged for debugging and the nil commit is taken as the next one, which the
  next round of the loop dereferences.
\<close>

lemma sole_parent_unresolved:
  assumes "Hash c \<notin> set seen" and "NumParents c = 1"
      and "trackPaths c statuses = Inr (statuses', process)"
      and "(if process then acc c commits else Inr (commits, True)) = Inr (commits', True)"
      and "Parent (repo g) c 0 = Inl u"
  shows "walk g acc (Some c) seen statuses commits = Inl Panic"
  unfolding walk_acc_result[where acc=acc and cs=commits and g=g, OF assms(1,2,3,4)]
  by (simp add: assms(5) walk_nil)

text \<open>
  C9. In the store that lacks A, the sole parent of B does not resolve: the walk of the
  added files ends in a panic of the runtime, not in the fatal stop of the program, and
  so does the run. Under the merge M, whose second parent does not resolve, the walk
  and the run stop fatally.
\<close>

theorem unresolved_sole_parent_panics:
  "Parent (repo brokenHistory) commitB 0 = Inl () \<and>
   addedWalk brokenHistory removedFile [] = Inl Panic \<and>
   commitsSet brokenHistory removedFile = Inl Panic \<and>
   Parent (repo brokenMerge) commitM 1 = Inl () \<and>
   addedWalk brokenMerge removedFile [] = Inl Fatal \<and>
   commitsSet brokenMerge removedFile = Inl Fatal"
  by code_simp

section \<open>The order of the result\<close>

text \<open>
  The order in which a \<^verbatim>\<open>range\<close> over the status map meets its entries is open. The
  tracker gives the same signal and the same entries for every order, and so the walk
  returns the same for every order of the map it is given.
\<close>

lemma trackPaths_error: "trackPaths c sts = Inl e \<Longrightarrow> e = Fatal"
  by (induction sts arbitrary: e)
     (auto split: if_splits sum.splits option.splits prod.splits)

lemma trackPaths_map:
  "trackPaths c sts = Inr (sts', pr) \<Longrightarrow>
     sts' = map (\<lambda>x. (fst x,
                       if snd x = fileStatusRemoved then fileStatusRemoved
                       else if File c (fst x) = None then fileStatusFound
                       else if snd x = fileStatusFound then fileStatusRemoved
                       else snd x)) sts"
proof (induction sts arbitrary: sts' pr)
  case Nil
  then show ?case by simp
next
  case (Cons a sts)
  obtain q t where a: "a = (q, t)" by (cases a)
  from Cons.prems a obtain rest' p0 where
    r: "trackPaths c sts = Inr (rest', p0)"
    by (auto split: if_splits sum.splits option.splits prod.splits)
  note ih = Cons.IH[OF r]
  from Cons.prems a r have
    "sts' = (q, if t = fileStatusRemoved then fileStatusRemoved
                else if File c q = None then fileStatusFound
                else if t = fileStatusFound then fileStatusRemoved
                else t) # rest'"
    by (auto split: if_splits option.splits)
  with ih a show ?case by simp
qed

lemma trackPaths_permuted:
  assumes "mset a = mset b"
  shows "(\<exists>e. trackPaths c a = Inl e \<and> trackPaths c b = Inl e) \<or>
         (\<exists>s1 s2 pr. trackPaths c a = Inr (s1, pr) \<and> trackPaths c b = Inr (s2, pr) \<and>
            mset s1 = mset s2)"
proof -
  from assms have st: "set a = set b" by (rule mset_eq_setD)
  show ?thesis
  proof (cases "trackPaths c a")
    case (Inl e)
    then have "\<exists>e. trackPaths c a = Inl e" by blast
    then have "\<exists>e. trackPaths c b = Inl e" unfolding trackPaths_fatal st .
    then obtain e' where e': "trackPaths c b = Inl e'" by blast
    from Inl e' trackPaths_error[OF Inl] trackPaths_error[OF e'] show ?thesis by simp
  next
    case (Inr r)
    obtain s1 p1 where r: "r = (s1, p1)" by (cases r)
    have "\<not> (\<exists>e. trackPaths c a = Inl e)" using Inr by simp
    then have "\<not> (\<exists>e. trackPaths c b = Inl e)" unfolding trackPaths_fatal st .
    then obtain s2 p2 where b: "trackPaths c b = Inr (s2, p2)"
      by (cases "trackPaths c b") auto
    note a = Inr[unfolded r]
    have "p1 = p2"
      using trackPaths_process[OF a] trackPaths_process[OF b] st by simp
    moreover have "mset s1 = mset s2"
      unfolding trackPaths_map[OF a] trackPaths_map[OF b] using assms by simp
    ultimately show ?thesis using a b by simp
  qed
qed

lemma branchProcess_permuted: "mset a = mset b \<Longrightarrow> branchProcess p a = branchProcess p b"
  using mset_eq_setD[of a b] by (simp add: branchProcess_iff)

lemma distinct_keys_permuted:
  "mset a = mset b \<Longrightarrow> distinct (map fst b) \<Longrightarrow> distinct (map fst a)"
proof -
  assume m: "mset a = mset b" and d: "distinct (map fst b)"
  from m have "mset (map fst a) = mset (map fst b)" by simp
  with d show ?thesis by (metis mset_eq_imp_distinct_iff)
qed

lemma walk_branch_permuted:
  "(\<forall>sts2. distinct (map fst sts) \<longrightarrow> distinct (map fst sts2) \<longrightarrow>
      mset sts2 = mset sts \<longrightarrow>
      walk g acc cur seen sts2 cs = walk g acc cur seen sts cs)"
  "(\<forall>sts2. distinct (map fst sts) \<longrightarrow> distinct (map fst sts2) \<longrightarrow>
      mset sts2 = mset sts \<longrightarrow>
      branch g acc c idx seen sts2 cs = branch g acc c idx seen sts cs)"
proof (induction g acc cur seen sts cs and g acc c idx seen sts cs rule: walk_branch.induct)
  case (1 g acc current seen statuses commits)
  show ?case
  proof (intro allI impI)
    fix sts2
    assume d1: "distinct (map fst statuses)" and d2: "distinct (map fst sts2)"
      and lv: "mset sts2 = mset statuses"
    show "walk g acc current seen sts2 commits = walk g acc current seen statuses commits"
    proof (cases current)
      case None
      then show ?thesis by (simp add: walk_nil)
    next
      case (Some c)
      show ?thesis
      proof (cases "Hash c \<in> set seen")
        case True
        with Some show ?thesis by (simp add: walk_seen)
      next
        case unseen: False
        show ?thesis
        proof (cases "NumParents c \<noteq> 1")
          case True
          from "1.IH"(1)[OF Some unseen True, rule_format, OF d1 d2 lv]
          show ?thesis unfolding Some walk_fork[OF unseen True] .
        next
          case False
          then have one: "NumParents c = 1" by simp
          from trackPaths_permuted[OF lv, of c] show ?thesis
          proof (elim disjE exE conjE)
            fix e
            assume "trackPaths c sts2 = Inl e" "trackPaths c statuses = Inl e"
            with Some unseen one show ?thesis by (simp add: walk_track_fatal)
          next
            fix s1 s2 pr
            assume t2: "trackPaths c sts2 = Inr (s1, pr)"
              and t1: "trackPaths c statuses = Inr (s2, pr)"
              and l: "mset s1 = mset s2"
            note l2 = walk_acc_result[where acc=acc and cs=commits and g=g, OF unseen one t2 refl]
            note l1 = walk_acc_result[where acc=acc and cs=commits and g=g, OF unseen one t1 refl]
            show ?thesis
            proof (cases "if pr then acc c commits else Inr (commits, True)")
              case (Inl e)
              show ?thesis unfolding Some l1 l2 Inl by simp
            next
              case ar: (Inr ap)
              obtain commits' continue where ap: "ap = (commits', continue)" by (cases ap)
              show ?thesis
              proof (cases continue)
                case True
                from True have nn: "\<not> \<not> continue" by simp
                have "walk g acc (case Parent (repo g) c 0 of Inl x \<Rightarrow> None | Inr x \<Rightarrow> Some x)
                        (Hash c # seen) s1 commits' =
                      walk g acc (case Parent (repo g) c 0 of Inl x \<Rightarrow> None | Inr x \<Rightarrow> Some x)
                        (Hash c # seen) s2 commits'"
                  by (rule "1.IH"(2)[OF Some unseen False t1 refl ar ap[symmetric] nn, rule_format,
                        OF trackPaths_distinct[OF t1 d1] trackPaths_distinct[OF t2 d2] l])
                with True show ?thesis unfolding Some l1 l2 ar ap by simp
              next
                case False
                then show ?thesis unfolding Some l1 l2 ar ap by simp
              qed
            qed
          qed
        qed
      qed
    qed
  qed
next
  case (2 g acc current idx seen statuses commits)
  show ?case
  proof (intro allI impI)
    fix sts2
    assume d1: "distinct (map fst statuses)" and d2: "distinct (map fst sts2)"
      and lv: "mset sts2 = mset statuses"
    note bpe = branchProcess_permuted[OF lv]
    show "branch g acc current idx seen sts2 commits = branch g acc current idx seen statuses commits"
    proof (cases "idx < NumParents current")
      case False
      then show ?thesis by (simp add: branch_end)
    next
      case lt: True
      show ?thesis
      proof (cases "Parent (repo g) current idx")
        case (Inl u)
        with lt show ?thesis by (simp add: branch_unresolved)
      next
        case p: (Inr p)
        show ?thesis
        proof (cases "IsAncestor (repo g) p (beginCommit g)")
          case (Inl u)
          with lt p show ?thesis by (simp add: branch_untraversable)
        next
          case an: (Inr ancestor)
          show ?thesis
          proof (cases "\<not> branchProcess p statuses")
            case True
            with bpe[of p] have t2: "\<not> branchProcess p sts2" by simp
            from "2.IH"(1)[OF lt p an True, rule_format, OF d1 d2 lv]
            show ?thesis
              unfolding branch_skip[OF lt p an disjI1[OF True]] branch_skip[OF lt p an disjI1[OF t2]] .
          next
            case bp: False
            show ?thesis
            proof (cases ancestor)
              case True
              from "2.IH"(2)[OF lt p an bp True, rule_format, OF d1 d2 lv]
              show ?thesis
                unfolding branch_skip[OF lt p an disjI2[OF True]] .
            next
              case False
              with an have an': "IsAncestor (repo g) p (beginCommit g) = Inr False" by simp
              from bp have bp1: "branchProcess p statuses" by simp
              with bpe[of p] have bp2: "branchProcess p sts2" by simp
              have w: "walk g acc (Some p) seen (copyMap sts2) commits =
                       walk g acc (Some p) seen (copyMap statuses) commits"
                unfolding copyMap_distinct[OF d1] copyMap_distinct[OF d2]
                using "2.IH"(3)[OF lt p an bp False, rule_format, of sts2] d1 d2 lv
                unfolding copyMap_distinct[OF d1] by blast
              show ?thesis
              proof (cases "walk g acc (Some p) seen (copyMap statuses) commits")
                case (Inl e)
                with w have w': "walk g acc (Some p) seen (copyMap sts2) commits = Inl e"
                  by simp
                show ?thesis
                  unfolding branch_descend[OF lt p an' bp1] branch_descend[OF lt p an' bp2] Inl w'
                  by simp
              next
                case wr: (Inr sc)
                obtain s1 c1 where sc: "sc = (s1, c1)" by (cases sc)
                from w wr sc have w': "walk g acc (Some p) seen (copyMap sts2) commits = Inr (s1, c1)"
                  by simp
                have "branch g acc current (idx + 1) s1 sts2 c1 =
                      branch g acc current (idx + 1) s1 statuses c1"
                  by (rule "2.IH"(4)[OF lt p an bp False wr sc[symmetric], rule_format, OF d1 d2 lv])
                then show ?thesis
                  unfolding branch_descend[OF lt p an' bp1] branch_descend[OF lt p an' bp2]
                    wr[unfolded sc] w'
                  by simp
              qed
            qed
          qed
        qed
      qed
    qed
  qed
qed

lemma walk_permuted:
  assumes "mset sts2 = mset sts" and "distinct (map fst sts)"
  shows "walk g acc cur seen sts2 cs = walk g acc cur seen sts cs"
  by (rule walk_branch_permuted(1)[rule_format, OF assms(2) distinct_keys_permuted[OF assms] assms(1)])

lemma initStatuses_distinct_aux:
  "distinct (map fst n) \<Longrightarrow> distinct (map fst (fold (\<lambda>path statuses. AList.update path s statuses) paths n))"
  by (induction paths arbitrary: n) (simp_all add: distinct_update)

lemma initStatuses_distinct: "distinct (map fst (initStatuses paths s))"
  unfolding initStatuses_def by (rule initStatuses_distinct_aux) simp

lemma tied_commitsSet:
  "commitsSet tiedHistory addedFile = Inr [(''C'', tiedC), (''B'', tiedB)]"
  by code_simp

lemma diamond_computeDiffCommits:
  "computeDiffCommits diamondHistory addedFile (Inr [diamondA, diamondB, diamondC])"
  unfolding computeDiffCommits_def diamond_commitsSet
  by (simp add: sortedByWhen_def diamondA_def diamondB_def diamondC_def)

lemma sortedByWhen_sorted: "sortedByWhen xs = sorted (map When xs)"
  by (simp add: sortedByWhen_def sorted_map not_less)

lemma sortedByWhen_unique:
  assumes "mset xs = mset ys" and "sortedByWhen xs" and "sortedByWhen ys"
      and "distinct (map When xs)"
  shows "xs = ys"
proof -
  have m: "mset (map When xs) = mset (map When ys)" using assms(1) by simp
  from assms(2,3) have s: "sorted (map When xs)" "sorted (map When ys)"
    by (simp_all add: sortedByWhen_sorted)
  have "sort (map When xs) = map When xs" using s(1) by (rule sorted_sort_id)
  moreover have "sort (map When xs) = map When ys"
    using m s(2) by (intro properties_for_sort) simp_all
  ultimately have eq: "map When xs = map When ys" by simp
  from assms(1) have "set xs = set ys" by (rule mset_eq_setD)
  moreover from assms(4) have "inj_on When (set xs)" by (simp add: distinct_map)
  ultimately have "inj_on When (set xs \<union> set ys)" by simp
  with eq show ?thesis by (simp add: inj_on_map_eq_map)
qed

text \<open>
  C7, as the claim states it, fails: B and C of the tied history carry the same
  timestamp, the comparison of the sort puts neither before the other, and a run may
  return them in either order.
\<close>

theorem tied_timestamps_counterexample:
  "computeDiffCommits tiedHistory addedFile (Inr [tiedB, tiedC]) \<and>
   computeDiffCommits tiedHistory addedFile (Inr [tiedC, tiedB]) \<and>
   [tiedB, tiedC] \<noteq> [tiedC, tiedB]"
  unfolding computeDiffCommits_def tied_commitsSet
  by (simp add: sortedByWhen_def tiedB_def tiedC_def)

text \<open>
  C7, amended. Two runs on the same history and revisions end alike: both stop with the
  same error, or both return a sequence of the same commits, each sorted by committer
  timestamp ascending. The order in which a run ranges over a status map has no part in
  that: for a status map in any order the tracker gives the same signal and the same
  entries, branchProcess is the same, and every walk, those of the added, removed and
  changed files among them, returns the same. When the timestamps of the returned
  commits differ from one another, the two sequences are the same. The order of
  commits with equal timestamps is open.
\<close>

theorem computeDiffCommits_up_to_ties:
  "(mset statuses2 = mset statuses \<and> distinct (map fst statuses) \<longrightarrow>
      accumulateCommitsForPaths g current seen statuses2 acc commits =
      accumulateCommitsForPaths g current seen statuses acc commits \<and>
      branchProcess p statuses2 = branchProcess p statuses \<and>
      ((\<exists>e. trackPaths c statuses2 = Inl e \<and> trackPaths c statuses = Inl e) \<or>
       (\<exists>s1 s2 pr. trackPaths c statuses2 = Inr (s1, pr) \<and> trackPaths c statuses = Inr (s2, pr) \<and>
          mset s1 = mset s2))) \<and>
   (mset statuses2 = mset (initStatuses (added cl) fileStatusFound) \<longrightarrow>
      accumulateCommitsForPaths g (Some (endCommit g)) None statuses2 addAlways commits =
      addedWalk g cl commits) \<and>
   (mset statuses2 = mset (initStatuses (removed cl) fileStatusSeeking) \<longrightarrow>
      accumulateCommitsForPaths g (Some (endCommit g)) None statuses2
        (addIfNotAncestor (repo g) (endCommit g)) commits =
      removedWalk g cl commits) \<and>
   (mset statuses2 = mset (initStatuses (changed cl) fileStatusFound) \<longrightarrow>
      accumulateCommitsForPaths g (Some (endCommit g)) None statuses2
        (addIfNotAncestor (repo g) (endCommit g)) commits =
      changedWalk g cl commits) \<and>
   (computeDiffCommits g cl out1 \<and> computeDiffCommits g cl out2 \<longrightarrow>
     (case out1 of
        Inl e \<Rightarrow> out2 = Inl e
      | Inr xs \<Rightarrow>
          (\<exists>ys. out2 = Inr ys \<and> mset xs = mset ys \<and> sortedByWhen xs \<and> sortedByWhen ys \<and>
                (distinct (map When xs) \<longrightarrow> xs = ys))))"
proof -
  have perm: "accumulateCommitsForPaths g cur so s2 a commits =
              accumulateCommitsForPaths g cur so s a commits"
    if "mset s2 = mset s" "distinct (map fst s)" for cur so s2 s a
    unfolding accumulateCommitsForPaths_def by (rule walk_permuted[OF that])
  have 1: "mset statuses2 = mset statuses \<and> distinct (map fst statuses) \<longrightarrow>
      accumulateCommitsForPaths g current seen statuses2 acc commits =
      accumulateCommitsForPaths g current seen statuses acc commits \<and>
      branchProcess p statuses2 = branchProcess p statuses \<and>
      ((\<exists>e. trackPaths c statuses2 = Inl e \<and> trackPaths c statuses = Inl e) \<or>
       (\<exists>s1 s2 pr. trackPaths c statuses2 = Inr (s1, pr) \<and> trackPaths c statuses = Inr (s2, pr) \<and>
          mset s1 = mset s2))"
    using perm[of statuses2 statuses current seen acc]
      branchProcess_permuted[of statuses2 statuses p]
      trackPaths_permuted[of statuses2 statuses c]
    by blast
  have 2: "mset statuses2 = mset (initStatuses (added cl) fileStatusFound) \<longrightarrow>
      accumulateCommitsForPaths g (Some (endCommit g)) None statuses2 addAlways commits =
      addedWalk g cl commits"
    unfolding addedWalk_def using perm[OF _ initStatuses_distinct] by blast
  have 3: "mset statuses2 = mset (initStatuses (removed cl) fileStatusSeeking) \<longrightarrow>
      accumulateCommitsForPaths g (Some (endCommit g)) None statuses2
        (addIfNotAncestor (repo g) (endCommit g)) commits =
      removedWalk g cl commits"
    unfolding removedWalk_def using perm[OF _ initStatuses_distinct] by blast
  have 4: "mset statuses2 = mset (initStatuses (changed cl) fileStatusFound) \<longrightarrow>
      accumulateCommitsForPaths g (Some (endCommit g)) None statuses2
        (addIfNotAncestor (repo g) (endCommit g)) commits =
      changedWalk g cl commits"
    unfolding changedWalk_def using perm[OF _ initStatuses_distinct] by blast
  have 5: "computeDiffCommits g cl out1 \<and> computeDiffCommits g cl out2 \<longrightarrow>
     (case out1 of
        Inl e \<Rightarrow> out2 = Inl e
      | Inr xs \<Rightarrow>
          (\<exists>ys. out2 = Inr ys \<and> mset xs = mset ys \<and> sortedByWhen xs \<and> sortedByWhen ys \<and>
                (distinct (map When xs) \<longrightarrow> xs = ys)))"
  proof
    assume a: "computeDiffCommits g cl out1 \<and> computeDiffCommits g cl out2"
    show "case out1 of
          Inl e \<Rightarrow> out2 = Inl e
        | Inr xs \<Rightarrow>
            (\<exists>ys. out2 = Inr ys \<and> mset xs = mset ys \<and> sortedByWhen xs \<and> sortedByWhen ys \<and>
                  (distinct (map When xs) \<longrightarrow> xs = ys))"
    proof (cases out1)
      case (Inl e)
      with a show ?thesis by (auto simp: computeDiffCommits_def split: sum.splits)
    next
      case (Inr xs)
      with a obtain cs where cs: "commitsSet g cl = Inr cs"
        and x: "mset xs = mset (map snd cs)" "sortedByWhen xs"
        by (auto simp: computeDiffCommits_def split: sum.splits)
      with a obtain ys where ys: "out2 = Inr ys"
        and y: "mset ys = mset (map snd cs)" "sortedByWhen ys"
        by (cases out2) (auto simp: computeDiffCommits_def)
      from x y have m: "mset xs = mset ys" by simp
      have "distinct (map When xs) \<longrightarrow> xs = ys"
        using sortedByWhen_unique[OF m x(2) y(2)] by blast
      with Inr ys m x y show ?thesis by simp
    qed
  qed
  from 1 2 3 4 5 show ?thesis by blast
qed

lemma forked_two_orders:
  "mset [(''g.go'', fileStatusFound), (''f.go'', fileStatusFound)] =
   mset [(''f.go'', fileStatusFound), (''g.go'', fileStatusFound)] \<and>
   distinct (map fst [(''f.go'', fileStatusFound), (''g.go'', fileStatusFound)])"
  by simp

theorem computeDiffCommits_up_to_ties_witness:
  "computeDiffCommits diamondHistory addedFile (Inr [diamondA, diamondB, diamondC]) \<and>
   distinct (map When [diamondA, diamondB, diamondC]) \<and>
   \<not> computeDiffCommits diamondHistory addedFile (Inr [diamondB, diamondA, diamondC]) \<and>
   \<not> computeDiffCommits diamondHistory addedFile (Inl Fatal) \<and>
   accumulateCommitsForPaths forkedHistory (Some forkY) None
     [(''g.go'', fileStatusFound), (''f.go'', fileStatusFound)] addAlways [] =
   accumulateCommitsForPaths forkedHistory (Some forkY) None
     [(''f.go'', fileStatusFound), (''g.go'', fileStatusFound)] addAlways []"
proof -
  have d: "distinct (map When [diamondA, diamondB, diamondC])"
    by (simp add: diamondA_def diamondB_def diamondC_def)
  have ne: "[diamondA, diamondB, diamondC] \<noteq> [diamondB, diamondA, diamondC]"
    by (simp add: diamondA_def diamondB_def)
  have 1: "\<not> computeDiffCommits diamondHistory addedFile (Inr [diamondB, diamondA, diamondC])"
    using computeDiffCommits_up_to_ties[where g=diamondHistory and cl=addedFile
        and ?out1.0="Inr [diamondA, diamondB, diamondC]"
        and ?out2.0="Inr [diamondB, diamondA, diamondC]"]
      diamond_computeDiffCommits d ne
    by auto
  have 2: "\<not> computeDiffCommits diamondHistory addedFile (Inl Fatal)"
    using computeDiffCommits_up_to_ties[where g=diamondHistory and cl=addedFile
        and ?out1.0="Inr [diamondA, diamondB, diamondC]" and ?out2.0="Inl Fatal"]
      diamond_computeDiffCommits
    by auto
  have 3: "accumulateCommitsForPaths forkedHistory (Some forkY) None
     [(''g.go'', fileStatusFound), (''f.go'', fileStatusFound)] addAlways [] =
   accumulateCommitsForPaths forkedHistory (Some forkY) None
     [(''f.go'', fileStatusFound), (''g.go'', fileStatusFound)] addAlways []"
    using computeDiffCommits_up_to_ties[where g=forkedHistory
        and ?statuses2.0="[(''g.go'', fileStatusFound), (''f.go'', fileStatusFound)]"
        and statuses="[(''f.go'', fileStatusFound), (''g.go'', fileStatusFound)]"
        and current="Some forkY" and seen=None and acc=addAlways and commits="[]"]
      forked_two_orders
    by blast
  from diamond_computeDiffCommits d 1 2 3 show ?thesis by blast
qed

section \<open>Vendored paths in the change list\<close>

lemma HasPrefix_Contains: "take (length sub) s = sub \<Longrightarrow> Contains s sub"
  by (cases s) auto

lemma addPatches_filtered:
  assumes "addPatches cl0 patches = Inr cl"
  shows "(\<forall>p \<in> set (removed cl) - set (removed cl0). \<not> Contains p ''vendor/'') \<and>
         (\<forall>p \<in> set (changed cl) - set (changed cl0). \<not> Contains p ''vendor/'') \<and>
         (\<forall>p \<in> set (added cl) - set (added cl0). Contains p ''vendor/'' \<longrightarrow>
            (\<exists>src. (Some src, Some p) \<in> set patches \<and> src \<noteq> p \<and> \<not> Contains src ''vendor/''))"
  using assms
proof (induction patches arbitrary: cl0)
  case Nil
  then show ?case by simp
next
  case (Cons patch patches)
  from Cons.prems obtain cl1 where
    1: "addPatch cl0 patch = Inr cl1" and 2: "addPatches cl1 patches = Inr cl"
    by (auto split: sum.splits)
  note ih = Cons.IH[OF 2]
  obtain s d where pd: "patch = (s, d)" by (cases patch)
  have r: "\<forall>p \<in> set (removed cl1) - set (removed cl0). \<not> Contains p ''vendor/''"
    using 1 unfolding pd by (cases s; cases d) (auto split: if_splits)
  have c: "\<forall>p \<in> set (changed cl1) - set (changed cl0). \<not> Contains p ''vendor/''"
    using 1 unfolding pd by (cases s; cases d) (auto split: if_splits)
  have a: "\<forall>p \<in> set (added cl1) - set (added cl0). Contains p ''vendor/'' \<longrightarrow>
            (\<exists>src. patch = (Some src, Some p) \<and> src \<noteq> p \<and> \<not> Contains src ''vendor/'')"
    using 1 unfolding pd by (cases s; cases d) (auto split: if_splits)
  from ih r c a show ?case by (simp; blast)
qed

text \<open>
  No path that contains \<^verbatim>\<open>vendor/\<close> is listed as removed or as changed, and one is
  listed as added only as the new name of a rename whose old name does not contain it.
\<close>

lemma changedFiles_filtered:
  assumes "changedFiles patches = Inr cl"
  shows "(\<forall>p \<in> set (removed cl) \<union> set (changed cl). \<not> Contains p ''vendor/'') \<and>
         (\<forall>p \<in> set (added cl). Contains p ''vendor/'' \<longrightarrow>
            (\<exists>src. (Some src, Some p) \<in> set patches \<and> src \<noteq> p \<and> \<not> Contains src ''vendor/''))"
  using addPatches_filtered[OF assms[unfolded changedFiles_def]] by auto

text \<open>
  C8. A file renamed from \<^verbatim>\<open>lib/x.go\<close> to \<^verbatim>\<open>vendor/lib/x.go\<close> is listed as added
  under its new name, a path under \<^verbatim>\<open>vendor/\<close>: the rename case tests the old name
  only. The same path as a plain addition is left out.
\<close>

theorem rename_into_vendor_is_listed:
  "changedFiles [(Some ''lib/x.go'', Some ''vendor/lib/x.go'')]
     = Inr \<lparr>added = [''vendor/lib/x.go''], removed = [''lib/x.go''], changed = []\<rparr> \<and>
   changedFiles [(None, Some ''vendor/lib/x.go'')]
     = Inr \<lparr>added = [], removed = [], changed = []\<rparr>"
  by code_simp

end
